theory Spec2Isabelle
  imports Complex_Main "HOL-Library.Multiset"
begin

section \<open>An R-tree over an arena of nodes (final\_project.cpp)\<close>

text \<open>
  The embedding follows the C++ source function by function.
  \<^item> The \<open>float\<close> coordinates are read as real numbers: rounding, infinities and NaN are
    not part of the embedding.
  \<^item> \<open>size_t\<close> is read as \<open>nat\<close>; the sentinel \<open>numeric_limits<size_t>::max()\<close> is the
    constant \<open>SIZE_MAX\<close> of a 64-bit platform.
  \<^item> The arena \<open>std::vector<Node>\<close> is a list, and the C++ references \<open>node\<close>, \<open>root\<close>,
    \<open>parent\<close> and \<open>leaf\<close> into it are read as the arena positions they were taken from
    (\<open>nodes[node_index]\<close> at each use). \<open>splitNode\<close> and \<open>insertRT\<close> compute with the
    positions alone; \<open>splitNodeRef\<close> and \<open>insertRef\<close> also follow the capacity of the
    vector and end in \<open>Dangling_reference\<close> where the source uses a reference taken
    before the vector has reallocated its storage.
  \<^item> Unchecked reads (\<open>operator[]\<close> out of range, \<open>*entry.data\<close> on an empty optional)
    and the exception of \<open>findParent\<close> are error values.
  \<^item> The recursive member functions take a fuel argument; \<open>None\<close> is "no result within
    that many nested calls".
\<close>

subsection \<open>Constants\<close>

definition MAX_ENTRIES :: nat where
  "MAX_ENTRIES = 4"

definition MIN_ENTRIES :: nat where
  "MIN_ENTRIES = 2"

definition SIZE_MAX :: nat where
  "SIZE_MAX = 18446744073709551615"

definition FLT_MAX :: real where
  "FLT_MAX = 340282346638528859811704183484516925440"

subsection \<open>Rectangle\<close>

record Rectangle =
  x_min :: real
  y_min :: real
  x_max :: real
  y_max :: real

definition area :: "Rectangle \<Rightarrow> real" where
  "area r = (x_max r - x_min r) * (y_max r - y_min r)"

definition overlaps :: "Rectangle \<Rightarrow> Rectangle \<Rightarrow> bool" where
  "overlaps r other =
     (\<not> (x_min r \<ge> x_max other \<or> x_max r \<le> x_min other \<or>
         y_min r \<ge> y_max other \<or> y_max r \<le> y_min other))"

definition expand :: "Rectangle \<Rightarrow> Rectangle \<Rightarrow> Rectangle" where
  "expand r other =
     \<lparr>x_min = min (x_min r) (x_min other),
      y_min = min (y_min r) (y_min other),
      x_max = max (x_max r) (x_max other),
      y_max = max (y_max r) (y_max other)\<rparr>"

subsection \<open>Entry, Node, RTree\<close>

record 'd Entry =
  bounding_box :: Rectangle
  data :: "'d option"
  child_index :: nat

text \<open>The constructor \<open>Entry(rect, data = nullopt)\<close>.\<close>

definition mkEntry :: "Rectangle \<Rightarrow> 'd option \<Rightarrow> 'd Entry" where
  "mkEntry rect d = \<lparr>bounding_box = rect, data = d, child_index = SIZE_MAX\<rparr>"

record 'd Node =
  is_leaf :: bool
  entries :: "'d Entry list"

definition mkNode :: "bool \<Rightarrow> 'd Node" where
  "mkNode leaf = \<lparr>is_leaf = leaf, entries = []\<rparr>"

record 'd RTree =
  nodes :: "'d Node list"
  root_index :: nat

datatype error = Parent_not_found | Index_out_of_range | Empty_optional | Dangling_reference

subsection \<open>Construction\<close>

definition createNode :: "bool \<Rightarrow> 'd Node list \<Rightarrow> nat \<times> 'd Node list" where
  "createNode leaf ns = (length ns, ns @ [mkNode leaf])"

definition newRTree :: "'d RTree" where
  "newRTree = (let (i, ns) = createNode True [] in \<lparr>nodes = ns, root_index = i\<rparr>)"

subsection \<open>chooseLeaf\<close>

text \<open>The scan of lines 93--105: the state is \<open>(best_index, min_area_increase)\<close>.\<close>

definition chooseStep :: "'d Entry list \<Rightarrow> Rectangle \<Rightarrow> nat \<Rightarrow> nat \<times> real \<Rightarrow> nat \<times> real" where
  "chooseStep es rect i s =
     (let entry_rect = bounding_box (es ! i);
          area_before = area entry_rect;
          expanded_rect = expand entry_rect rect;
          area_increase = area expanded_rect - area_before
      in if area_increase < snd s then (i, area_increase) else s)"

definition chooseBest :: "'d Entry list \<Rightarrow> Rectangle \<Rightarrow> nat" where
  "chooseBest es rect = fst (fold (chooseStep es rect) [0..<length es] (0, FLT_MAX))"

definition expandEntry :: "Rectangle \<Rightarrow> 'd Entry \<Rightarrow> 'd Entry" where
  "expandEntry rect e = e\<lparr>bounding_box := expand (bounding_box e) rect\<rparr>"

fun chooseLeaf :: "nat \<Rightarrow> 'd Node list \<Rightarrow> nat \<Rightarrow> Rectangle \<Rightarrow> (error + nat \<times> 'd Node list) option" where
  "chooseLeaf 0 ns node_index rect = None"
| "chooseLeaf (Suc fuel) ns node_index rect =
     (if node_index \<ge> length ns then Some (Inl Index_out_of_range)
      else let node = ns ! node_index in
        if is_leaf node then Some (Inr (node_index, ns))
        else let best_index = chooseBest (entries node) rect in
          if best_index \<ge> length (entries node) then Some (Inl Index_out_of_range)
          else let node' = node\<lparr>entries := (entries node)[best_index := expandEntry rect (entries node ! best_index)]\<rparr>;
                   child = child_index (entries node' ! best_index)
               in chooseLeaf fuel (ns[node_index := node']) child rect)"

subsection \<open>splitNode\<close>

text \<open>Seed selection, lines 117--134: the state is \<open>(max_area_diff, seed1, seed2)\<close>.\<close>

definition seedStep :: "'d Entry list \<Rightarrow> nat \<Rightarrow> nat \<Rightarrow> real \<times> nat \<times> nat \<Rightarrow> real \<times> nat \<times> nat" where
  "seedStep es i j s =
     (let combined = expand (bounding_box (es ! i)) (bounding_box (es ! j));
          area_diff = area combined - area (bounding_box (es ! i)) - area (bounding_box (es ! j))
      in if area_diff > fst s then (area_diff, i, j) else s)"

definition pickSeeds :: "'d Entry list \<Rightarrow> nat \<times> nat" where
  "pickSeeds es =
     snd (fold (\<lambda>i s. fold (seedStep es i) [i + 1..<length es] s) [0..<length es] (- 1, 0, 1))"

text \<open>Lines 139--144.\<close>

definition remainingEntries :: "'d Entry list \<Rightarrow> nat \<Rightarrow> nat \<Rightarrow> 'd Entry list" where
  "remainingEntries es seed1 seed2 =
     map (\<lambda>i. es ! i) (filter (\<lambda>i. i \<noteq> seed1 \<and> i \<noteq> seed2) [0..<length es])"

text \<open>Greedy distribution, lines 150--164: the state is the pair of entry lists of the
  original node and of \<open>new_node\<close>.\<close>

definition distStep :: "'d Entry \<Rightarrow> 'd Entry list \<times> 'd Entry list \<Rightarrow> 'd Entry list \<times> 'd Entry list" where
  "distStep entry s =
     (let rect1 = bounding_box (fst s ! 0);
          rect2 = bounding_box (snd s ! 0);
          expanded1 = expand rect1 (bounding_box entry);
          expanded2 = expand rect2 (bounding_box entry);
          area_increase1 = area expanded1 - area rect1;
          area_increase2 = area expanded2 - area rect2
      in if area_increase1 < area_increase2 then (fst s @ [entry], snd s)
         else (fst s, snd s @ [entry]))"

definition distribute :: "'d Entry list \<Rightarrow> 'd Entry list \<times> 'd Entry list \<Rightarrow> 'd Entry list \<times> 'd Entry list" where
  "distribute remaining s = fold distStep remaining s"

text \<open>The loops that fold \<open>expand\<close> over the entries of a node, starting from entry 0.\<close>

definition mbr :: "'d Entry list \<Rightarrow> Rectangle" where
  "mbr es = fold (\<lambda>i m. expand m (bounding_box (es ! i))) [1..<length es] (bounding_box (es ! 0))"

definition childEntry :: "Rectangle \<Rightarrow> nat \<Rightarrow> 'd Entry" where
  "childEntry m c = (mkEntry m None)\<lparr>child_index := c\<rparr>"

definition hasChild :: "nat \<Rightarrow> 'd Node \<Rightarrow> bool" where
  "hasChild c node = (\<not> is_leaf node \<and> list_ex (\<lambda>e. child_index e = c) (entries node))"

definition findParent :: "'d Node list \<Rightarrow> nat \<Rightarrow> error + nat" where
  "findParent ns c =
     (case find (\<lambda>i. hasChild c (ns ! i)) [0..<length ns] of
        None \<Rightarrow> Inl Parent_not_found
      | Some i \<Rightarrow> Inr i)"

text \<open>Lines 188--197: the first entry of the parent that refers to the split node gets the
  recomputed rectangle.\<close>

fun updateParentEntry :: "nat \<Rightarrow> Rectangle \<Rightarrow> 'd Entry list \<Rightarrow> 'd Entry list" where
  "updateParentEntry c m [] = []"
| "updateParentEntry c m (e # es) =
     (if child_index e = c then e\<lparr>bounding_box := m\<rparr> # es else e # updateParentEntry c m es)"

text \<open>The two groups of a split: the entry lists of the original node and of \<open>new_node\<close>
  after line 164.\<close>

definition splitGroups :: "'d Entry list \<Rightarrow> (error + 'd Entry list \<times> 'd Entry list)" where
  "splitGroups es =
     (let (seed1, seed2) = pickSeeds es in
      if seed1 \<ge> length es \<or> seed2 \<ge> length es then Inl Index_out_of_range
      else Inr (distribute (remainingEntries es seed1 seed2) ([es ! seed1], [es ! seed2])))"

fun splitNode :: "nat \<Rightarrow> 'd RTree \<Rightarrow> nat \<Rightarrow> (error + 'd RTree) option" where
  "splitNode 0 t node_index = None"
| "splitNode (Suc fuel) t node_index =
     (if node_index \<ge> length (nodes t) then Some (Inl Index_out_of_range)
      else let node = nodes t ! node_index in
        (case splitGroups (entries node) of
          Inl e \<Rightarrow> Some (Inl e)
        | Inr (g1, g2) \<Rightarrow>
            let new_node = \<lparr>is_leaf = is_leaf node, entries = g2\<rparr>;
                ns1 = (nodes t)[node_index := node\<lparr>entries := g1\<rparr>]
            in if node_index = root_index t then
                 let (root, ns2) = createNode False ns1;
                     new_node_index = length ns2;
                     ns3 = ns2 @ [new_node];
                     mbr1 = mbr (entries (ns3 ! node_index));
                     mbr2 = mbr (entries (ns3 ! new_node_index));
                     root_node = (ns3 ! root)\<lparr>entries :=
                        entries (ns3 ! root) @ [childEntry mbr1 node_index, childEntry mbr2 new_node_index]\<rparr>
                 in Some (Inr \<lparr>nodes = ns3[root := root_node], root_index = root\<rparr>)
               else
                 (case findParent ns1 node_index of
                   Inl e \<Rightarrow> Some (Inl e)
                 | Inr parent_index \<Rightarrow>
                     let parent = ns1 ! parent_index;
                         parent1 = parent\<lparr>entries :=
                            updateParentEntry node_index (mbr (entries (ns1 ! node_index))) (entries parent)\<rparr>;
                         ns2 = ns1[parent_index := parent1];
                         new_node_index = length ns2;
                         ns3 = ns2 @ [new_node];
                         mbr_new_node = mbr (entries (ns3 ! new_node_index));
                         parent2 = (ns3 ! parent_index)\<lparr>entries :=
                            entries (ns3 ! parent_index) @ [childEntry mbr_new_node new_node_index]\<rparr>;
                         t' = \<lparr>nodes = ns3[parent_index := parent2], root_index = root_index t\<rparr>
                     in if length (entries parent2) > MAX_ENTRIES then splitNode fuel t' parent_index
                        else Some (Inr t'))))"

subsection \<open>insert and rangeQuery\<close>

definition insertRT :: "nat \<Rightarrow> Rectangle \<Rightarrow> 'd \<Rightarrow> 'd RTree \<Rightarrow> (error + 'd RTree) option" where
  "insertRT fuel rect d t =
     (case chooseLeaf fuel (nodes t) (root_index t) rect of
        None \<Rightarrow> None
      | Some (Inl e) \<Rightarrow> Some (Inl e)
      | Some (Inr (leaf_index, ns)) \<Rightarrow>
          let leaf = ns ! leaf_index;
              leaf' = leaf\<lparr>entries := entries leaf @ [mkEntry rect (Some d)]\<rparr>;
              t' = \<lparr>nodes = ns[leaf_index := leaf'], root_index = root_index t\<rparr>
          in if length (entries leaf') > MAX_ENTRIES then splitNode fuel t' leaf_index
             else Some (Inr t'))"

text \<open>One iteration of the loop of lines 239--247; \<open>rec\<close> is the recursive call.\<close>

definition queryStep ::
  "(nat \<Rightarrow> 'd list \<Rightarrow> (error + 'd list) option) \<Rightarrow> bool \<Rightarrow> Rectangle \<Rightarrow> 'd Entry \<Rightarrow>
   (error + 'd list) option \<Rightarrow> (error + 'd list) option" where
  "queryStep rec leaf rect entry acc =
     (case acc of
        Some (Inr results) \<Rightarrow>
          if overlaps (bounding_box entry) rect then
            if leaf then
              (case data entry of
                 None \<Rightarrow> Some (Inl Empty_optional)
               | Some d \<Rightarrow> Some (Inr (results @ [d])))
            else rec (child_index entry) results
          else acc
      | _ \<Rightarrow> acc)"

fun rangeQueryHelper :: "nat \<Rightarrow> 'd Node list \<Rightarrow> Rectangle \<Rightarrow> nat \<Rightarrow> 'd list \<Rightarrow> (error + 'd list) option" where
  "rangeQueryHelper 0 ns rect node_index results = None"
| "rangeQueryHelper (Suc fuel) ns rect node_index results =
     (if node_index \<ge> length ns then Some (Inl Index_out_of_range)
      else let node = ns ! node_index in
        fold (queryStep (rangeQueryHelper fuel ns rect) (is_leaf node) rect) (entries node)
          (Some (Inr results)))"

definition rangeQuery :: "nat \<Rightarrow> 'd RTree \<Rightarrow> Rectangle \<Rightarrow> (error + 'd list) option" where
  "rangeQuery fuel t rect = rangeQueryHelper fuel (nodes t) rect (root_index t) []"

subsection \<open>Indexes built from the empty one\<close>

text \<open>\<open>built ps t\<close>: the index \<open>t\<close> is what \<open>new()\<close> followed by the calls
  \<open>insert(rect, value)\<close> for the pairs of \<open>ps\<close>, in this order, returns.\<close>

inductive built :: "(Rectangle \<times> 'd) list \<Rightarrow> 'd RTree \<Rightarrow> bool" where
  built_new: "built [] newRTree"
| built_insert: "built ps t \<Longrightarrow> insertRT fuel rect d t = Some (Inr t') \<Longrightarrow> built (ps @ [(rect, d)]) t'"

text \<open>A sequence of \<open>insert\<close> calls, each with the same fuel.\<close>

fun insertAll :: "nat \<Rightarrow> (Rectangle \<times> 'd) list \<Rightarrow> 'd RTree \<Rightarrow> (error + 'd RTree) option" where
  "insertAll fuel [] t = Some (Inr t)"
| "insertAll fuel ((rect, d) # ps) t =
     (case insertRT fuel rect d t of
        Some (Inr t') \<Rightarrow> insertAll fuel ps t'
      | x \<Rightarrow> x)"

subsection \<open>The references of splitNode and the capacity of the arena\<close>

text \<open>\<open>emplace_back\<close> and \<open>push_back\<close> move the elements of a \<open>std::vector\<close> to new
  storage when its size has reached its capacity, and every reference taken before then
  refers to released storage. \<open>splitNode\<close> takes \<open>node\<close> at line 114, \<open>root\<close> at line 168
  and \<open>parent\<close> at line 187, and appends to \<open>nodes\<close> at line 167 (through \<open>createNode\<close>,
  line 82), line 170 and line 200; it reads \<open>node\<close> at line 171 and writes through \<open>root\<close>
  at line 180 and through \<open>parent\<close> at line 205. \<open>vectorFull cap ns\<close>: an append to the
  vector \<open>ns\<close> of capacity \<open>cap\<close> reallocates.\<close>

definition vectorFull :: "nat \<Rightarrow> 'a list \<Rightarrow> bool" where
  "vectorFull cap ns = (length ns \<ge> cap)"

text \<open>\<open>splitNode\<close> with the capacity \<open>cap\<close> of \<open>nodes\<close>. A call that does not end in
  \<open>Dangling_reference\<close> has not reallocated, so the capacity is the same for the
  recursive call and after the return.\<close>

fun splitNodeRef :: "nat \<Rightarrow> nat \<Rightarrow> 'd RTree \<Rightarrow> nat \<Rightarrow> (error + 'd RTree) option" where
  "splitNodeRef 0 cap t node_index = None"
| "splitNodeRef (Suc fuel) cap t node_index =
     (if node_index \<ge> length (nodes t) then Some (Inl Index_out_of_range)
      else let node = nodes t ! node_index in
        (case splitGroups (entries node) of
          Inl e \<Rightarrow> Some (Inl e)
        | Inr (g1, g2) \<Rightarrow>
            let new_node = \<lparr>is_leaf = is_leaf node, entries = g2\<rparr>;
                ns1 = (nodes t)[node_index := node\<lparr>entries := g1\<rparr>]
            in if node_index = root_index t then
                 let node_moved = vectorFull cap ns1;
                     (root, ns2) = createNode False ns1;
                     new_node_index = length ns2;
                     root_moved = vectorFull cap ns2;
                     ns3 = ns2 @ [new_node]
                 in if node_moved \<or> root_moved then Some (Inl Dangling_reference)
                    else
                      let mbr1 = mbr (entries (ns3 ! node_index));
                          mbr2 = mbr (entries (ns3 ! new_node_index));
                          root_node = (ns3 ! root)\<lparr>entries :=
                             entries (ns3 ! root) @ [childEntry mbr1 node_index, childEntry mbr2 new_node_index]\<rparr>
                      in Some (Inr \<lparr>nodes = ns3[root := root_node], root_index = root\<rparr>)
               else
                 (case findParent ns1 node_index of
                   Inl e \<Rightarrow> Some (Inl e)
                 | Inr parent_index \<Rightarrow>
                     let parent = ns1 ! parent_index;
                         parent1 = parent\<lparr>entries :=
                            updateParentEntry node_index (mbr (entries (ns1 ! node_index))) (entries parent)\<rparr>;
                         ns2 = ns1[parent_index := parent1];
                         new_node_index = length ns2;
                         parent_moved = vectorFull cap ns2;
                         ns3 = ns2 @ [new_node]
                     in if parent_moved then Some (Inl Dangling_reference)
                        else
                          let mbr_new_node = mbr (entries (ns3 ! new_node_index));
                              parent2 = (ns3 ! parent_index)\<lparr>entries :=
                                 entries (ns3 ! parent_index) @ [childEntry mbr_new_node new_node_index]\<rparr>;
                              t' = \<lparr>nodes = ns3[parent_index := parent2], root_index = root_index t\<rparr>
                          in if length (entries parent2) > MAX_ENTRIES then splitNodeRef fuel cap t' parent_index
                             else Some (Inr t'))))"

text \<open>\<open>insert\<close> with the capacity of \<open>nodes\<close>: \<open>chooseLeaf\<close> appends nothing, and \<open>leaf\<close>
  (line 66) is not used after the call of \<open>splitNode\<close>.\<close>

definition insertRef :: "nat \<Rightarrow> nat \<Rightarrow> Rectangle \<Rightarrow> 'd \<Rightarrow> 'd RTree \<Rightarrow> (error + 'd RTree) option" where
  "insertRef fuel cap rect d t =
     (case chooseLeaf fuel (nodes t) (root_index t) rect of
        None \<Rightarrow> None
      | Some (Inl e) \<Rightarrow> Some (Inl e)
      | Some (Inr (leaf_index, ns)) \<Rightarrow>
          let leaf = ns ! leaf_index;
              leaf' = leaf\<lparr>entries := entries leaf @ [mkEntry rect (Some d)]\<rparr>;
              t' = \<lparr>nodes = ns[leaf_index := leaf'], root_index = root_index t\<rparr>
          in if length (entries leaf') > MAX_ENTRIES then splitNodeRef fuel cap t' leaf_index
             else Some (Inr t'))"

fun insertAllRef :: "nat \<Rightarrow> nat \<Rightarrow> (Rectangle \<times> 'd) list \<Rightarrow> 'd RTree \<Rightarrow> (error + 'd RTree) option" where
  "insertAllRef fuel cap [] t = Some (Inr t)"
| "insertAllRef fuel cap ((rect, d) # ps) t =
     (case insertRef fuel cap rect d t of
        Some (Inr t') \<Rightarrow> insertAllRef fuel cap ps t'
      | x \<Rightarrow> x)"

section \<open>Vocabulary of the properties\<close>

text \<open>The constructor \<open>Rectangle(x_min, y_min, x_max, y_max)\<close>.\<close>

definition Rect :: "real \<Rightarrow> real \<Rightarrow> real \<Rightarrow> real \<Rightarrow> Rectangle" where
  "Rect a b c d = \<lparr>x_min = a, y_min = b, x_max = c, y_max = d\<rparr>"

text \<open>\<open>covers a b\<close>: the rectangle \<open>a\<close> contains the rectangle \<open>b\<close>.\<close>

definition covers :: "Rectangle \<Rightarrow> Rectangle \<Rightarrow> bool" where
  "covers a b =
     (x_min a \<le> x_min b \<and> y_min a \<le> y_min b \<and> x_max b \<le> x_max a \<and> y_max b \<le> y_max a)"

text \<open>The area a rectangle gains when it is expanded to absorb another one, and the area
  wasted when two rectangles are put together (\<open>area_diff\<close> of line 125).\<close>

definition areaIncrease :: "Rectangle \<Rightarrow> Rectangle \<Rightarrow> real" where
  "areaIncrease r other = area (expand r other) - area r"

definition areaDiff :: "Rectangle \<Rightarrow> Rectangle \<Rightarrow> real" where
  "areaDiff a b = area (expand a b) - area a - area b"

text \<open>The test of line 159, against the rectangles of the two seeds.\<close>

definition nearerSeed1 :: "'d Entry \<Rightarrow> 'd Entry \<Rightarrow> 'd Entry \<Rightarrow> bool" where
  "nearerSeed1 seed1 seed2 e =
     (areaIncrease (bounding_box seed1) (bounding_box e)
        < areaIncrease (bounding_box seed2) (bounding_box e))"

section \<open>Invariants of the arena\<close>

text \<open>The handles an internal node refers to, and those of the whole arena, with
  multiplicity.\<close>

definition childrenOf :: "'d Node \<Rightarrow> nat multiset" where
  "childrenOf n = (if is_leaf n then {#} else mset (map child_index (entries n)))"

definition allChildren :: "'d Node list \<Rightarrow> nat multiset" where
  "allChildren ns = sum_list (map childrenOf ns)"

text \<open>The entries a leaf node holds, and those of all leaf nodes of the arena.\<close>

definition leafEntries :: "'d Node \<Rightarrow> 'd Entry multiset" where
  "leafEntries n = (if is_leaf n then mset (entries n) else {#})"

definition allLeafEntries :: "'d Node list \<Rightarrow> 'd Entry multiset" where
  "allLeafEntries ns = sum_list (map leafEntries ns)"

text \<open>The arena is a tree with root \<open>rt\<close>: every position but the root is referred to by
  exactly one entry of an internal node, and the root by none; \<open>lvl\<close> gives every node its
  height (0 for the leaf nodes), an internal node has an entry, and each of its entries
  refers to a node one level lower.\<close>

definition treeShape :: "(nat \<Rightarrow> nat) \<Rightarrow> 'd Node list \<Rightarrow> nat \<Rightarrow> bool" where
  "treeShape lvl ns rt =
     (rt < length ns \<and>
      allChildren ns + {#rt#} = mset [0..<length ns] \<and>
      (\<forall>i<length ns. lvl i \<le> lvl rt \<and> (is_leaf (ns ! i) \<longleftrightarrow> lvl i = 0) \<and>
         (\<not> is_leaf (ns ! i) \<longrightarrow> entries (ns ! i) \<noteq> [] \<and>
            (\<forall>e\<in>set (entries (ns ! i)). Suc (lvl (child_index e)) = lvl i))))"

text \<open>The rectangle of an entry of an internal node covers the rectangles of the entries of
  the node it refers to.\<close>

definition boxesOk :: "'d Node list \<Rightarrow> bool" where
  "boxesOk ns =
     (\<forall>i<length ns. \<not> is_leaf (ns ! i) \<longrightarrow>
        (\<forall>e\<in>set (entries (ns ! i)). \<forall>e'\<in>set (entries (ns ! child_index e)).
           covers (bounding_box e) (bounding_box e')))"

text \<open>The entries of the leaf nodes hold a data value.\<close>

definition dataOk :: "'d Node list \<Rightarrow> bool" where
  "dataOk ns = (\<forall>n\<in>set ns. is_leaf n \<longrightarrow> (\<forall>e\<in>set (entries n). data e \<noteq> None))"

text \<open>Every entry that refers to node \<open>c\<close> covers the rectangle being inserted: what
  \<open>chooseLeaf\<close> has established for the node it is about to visit.\<close>

definition pathCovers :: "'d Node list \<Rightarrow> nat \<Rightarrow> Rectangle \<Rightarrow> bool" where
  "pathCovers ns c rect =
     (\<forall>p<length ns. \<not> is_leaf (ns ! p) \<longrightarrow>
        (\<forall>e\<in>set (entries (ns ! p)). child_index e = c \<longrightarrow> covers (bounding_box e) rect))"

text \<open>\<open>grown ns ns'\<close>: the arena \<open>ns'\<close> differs from \<open>ns\<close> only in rectangles of entries of
  internal nodes, and each of these covers the rectangle it replaces.\<close>

definition grownEntry :: "'d Entry \<Rightarrow> 'd Entry \<Rightarrow> bool" where
  "grownEntry e e' =
     (child_index e' = child_index e \<and> data e' = data e \<and> covers (bounding_box e') (bounding_box e))"

definition grownNode :: "'d Node \<Rightarrow> 'd Node \<Rightarrow> bool" where
  "grownNode n n' =
     (is_leaf n' = is_leaf n \<and> list_all2 grownEntry (entries n) (entries n') \<and> (is_leaf n \<longrightarrow> n' = n))"

definition grown :: "'d Node list \<Rightarrow> 'd Node list \<Rightarrow> bool" where
  "grown ns ns' = list_all2 grownNode ns ns'"

text \<open>The node that \<open>chooseLeaf\<close> leaves behind when it descends (line 107).\<close>

definition descendNode :: "Rectangle \<Rightarrow> 'd Node \<Rightarrow> 'd Node" where
  "descendNode rect node =
     node\<lparr>entries := (entries node)[chooseBest (entries node) rect :=
        expandEntry rect (entries node ! chooseBest (entries node) rect)]\<rparr>"

text \<open>The arena after \<open>splitNode\<close> has split the root, and after it has split a node with
  parent \<open>p\<close> (before the parent is split in turn).\<close>

definition splitRootNodes :: "'d Node list \<Rightarrow> nat \<Rightarrow> 'd Entry list \<Rightarrow> 'd Entry list \<Rightarrow> 'd Node list" where
  "splitRootNodes ns i g1 g2 =
     ns[i := (ns ! i)\<lparr>entries := g1\<rparr>]
       @ [\<lparr>is_leaf = False, entries = [childEntry (mbr g1) i, childEntry (mbr g2) (Suc (length ns))]\<rparr>,
          \<lparr>is_leaf = is_leaf (ns ! i), entries = g2\<rparr>]"

definition splitInnerNodes :: "'d Node list \<Rightarrow> nat \<Rightarrow> nat \<Rightarrow> 'd Entry list \<Rightarrow> 'd Entry list \<Rightarrow> 'd Node list" where
  "splitInnerNodes ns i p g1 g2 =
     ns[i := (ns ! i)\<lparr>entries := g1\<rparr>,
        p := (ns ! p)\<lparr>entries := updateParentEntry i (mbr g1) (entries (ns ! p))
                                    @ [childEntry (mbr g2) (length ns)]\<rparr>]
       @ [\<lparr>is_leaf = is_leaf (ns ! i), entries = g2\<rparr>]"

text \<open>The invariant of the index.\<close>

definition wellFormed :: "(nat \<Rightarrow> nat) \<Rightarrow> 'd RTree \<Rightarrow> bool" where
  "wellFormed lvl t =
     (treeShape lvl (nodes t) (root_index t) \<and> boxesOk (nodes t) \<and> dataOk (nodes t))"

text \<open>The leaf entry that \<open>insert(rect, value)\<close> stores.\<close>

definition stored :: "Rectangle \<times> 'd \<Rightarrow> 'd Entry" where
  "stored p = mkEntry (fst p) (Some (snd p))"


text \<open>The values of the entries that overlap the query.\<close>

definition hits :: "Rectangle \<Rightarrow> 'd Entry list \<Rightarrow> 'd list" where
  "hits rect es = map (\<lambda>e. the (data e)) (filter (\<lambda>e. overlaps (bounding_box e) rect) es)"



section \<open>Example inputs\<close>

definition leafEntry :: "real \<times> real \<times> real \<times> real \<Rightarrow> nat \<Rightarrow> nat Entry" where
  "leafEntry c v = (case c of (x0, y0, x1, y1) \<Rightarrow> mkEntry (Rect x0 y0 x1 y1) (Some v))"

text \<open>Five heavily overlapping rectangles: every pair wastes at most \<open>-2\<close>.\<close>

definition exSeeds :: "nat Entry list" where
  "exSeeds = [leafEntry (0, 0, 2, 2) 0, leafEntry (0, 0, 2, 2) 1, leafEntry (0, 0, 1, 2) 2,
              leafEntry (0, 0, 2, 2) 3, leafEntry (0, 0, 2, 2) 4]"

text \<open>The index after these five rectangles have been inserted in this order.\<close>

definition exSeedsTree :: "nat RTree" where
  "exSeedsTree =
     \<lparr>nodes =
        [\<lparr>is_leaf = True, entries = [leafEntry (0, 0, 2, 2) 0]\<rparr>,
         \<lparr>is_leaf = False, entries = [childEntry (Rect 0 0 2 2) 0, childEntry (Rect 0 0 2 2) 2]\<rparr>,
         \<lparr>is_leaf = True, entries = [leafEntry (0, 0, 2, 2) 1, leafEntry (0, 0, 1, 2) 2,
                                      leafEntry (0, 0, 2, 2) 3, leafEntry (0, 0, 2, 2) 4]\<rparr>],
      root_index = 1\<rparr>"







text \<open>The four insertions of \<open>runTests\<close>.\<close>

definition runTestsInserts :: "(Rectangle \<times> nat) list" where
  "runTestsInserts = [(Rect 0 0 5 5, 1), (Rect 6 6 10 10, 2), (Rect 11 11 15 15, 3), (Rect 16 16 20 20, 4)]"

section \<open>Evaluation on the examples\<close>

lemmas model_defs = Rect_def leafEntry_def mkEntry_def childEntry_def mkNode_def createNode_def
  newRTree_def area_def expand_def areaIncrease_def areaDiff_def covers_def overlaps_def
  chooseBest_def chooseStep_def expandEntry_def pickSeeds_def seedStep_def remainingEntries_def
  distStep_def distribute_def mbr_def splitGroups_def hasChild_def findParent_def
  insertRT_def rangeQuery_def queryStep_def MAX_ENTRIES_def FLT_MAX_def Let_def







section \<open>Geometry\<close>

text \<open>
  C3. \<open>overlaps a b\<close> is false exactly when the rectangles are separated on an axis in the
  sense \<open>a.x_min \<ge> b.x_max\<close>, \<open>a.x_max \<le> b.x_min\<close>, \<open>a.y_min \<ge> b.y_max\<close> or
  \<open>a.y_max \<le> b.y_min\<close>; the rectangles \<open>[0,0,5,5]\<close> and \<open>[5,0,10,5]\<close>, which share an edge
  only, do not overlap.
\<close>

theorem overlaps_false_iff_separated:
  "(overlaps a b = False) =
     (x_min a \<ge> x_max b \<or> x_max a \<le> x_min b \<or> y_min a \<ge> y_max b \<or> y_max a \<le> y_min b)
   \<and> overlaps (Rect 0 0 5 5) (Rect 5 0 10 5) = False"
  by (simp add: overlaps_def Rect_def)

section \<open>The split: seeds and distribution\<close>

lemma distStep_seeds:
  "distStep e (s1 # g1, s2 # g2) =
     (if nearerSeed1 s1 s2 e then (s1 # g1 @ [e], s2 # g2) else (s1 # g1, s2 # g2 @ [e]))"
  by (simp add: distStep_def nearerSeed1_def areaIncrease_def Let_def)

lemma fold_distStep:
  "fold distStep remaining (s1 # g1, s2 # g2) =
     (s1 # g1 @ filter (nearerSeed1 s1 s2) remaining,
      s2 # g2 @ filter (\<lambda>e. \<not> nearerSeed1 s1 s2 e) remaining)"
  by (induction remaining arbitrary: g1 g2) (simp_all add: distStep_seeds)

lemma distribute_seeds:
  "distribute remaining ([s1], [s2]) =
     (s1 # filter (nearerSeed1 s1 s2) remaining, s2 # filter (\<lambda>e. \<not> nearerSeed1 s1 s2 e) remaining)"
  using fold_distStep[of remaining s1 "[]" s2 "[]"] by (simp add: distribute_def)



text \<open>
  C5 at the input \<open>exSeeds\<close>: no pair wastes more than the initial \<open>max_area_diff = -1\<close>, so
  the seeds stay at their initial values 0 and 1, although the pair \<open>(0, 2)\<close> wastes more
  than the pair \<open>(0, 1)\<close>. The fifth of five insertions splits the root leaf with these
  seeds: entry 0 stays, the four others go to the sibling.
\<close>

theorem pickSeeds_initial_value_wins:
  "pickSeeds exSeeds = (0, 1)
   \<and> areaDiff (bounding_box (exSeeds ! 0)) (bounding_box (exSeeds ! 1)) = - 4
   \<and> areaDiff (bounding_box (exSeeds ! 0)) (bounding_box (exSeeds ! 2)) = - 2
   \<and> insertAll 1 [(Rect 0 0 2 2, 0), (Rect 0 0 2 2, 1), (Rect 0 0 1 2, 2), (Rect 0 0 2 2, 3),
                     (Rect 0 0 2 2, 4)] newRTree = Some (Inr exSeedsTree)"
  by (simp add: exSeeds_def exSeedsTree_def model_defs)

section \<open>Counterexamples\<close>



section \<open>Auxiliary facts\<close>

subsection \<open>Rectangles\<close>

lemma covers_refl: "covers a a"
  by (simp add: covers_def)

lemma covers_trans: "covers a b \<Longrightarrow> covers b c \<Longrightarrow> covers a c"
  by (auto simp: covers_def)

lemma covers_expand1: "covers (expand a b) a"
  by (simp add: covers_def expand_def)

lemma covers_expand2: "covers (expand a b) b"
  by (simp add: covers_def expand_def)

lemma covers_expand_least: "covers c a \<Longrightarrow> covers c b \<Longrightarrow> covers c (expand a b)"
  by (simp add: covers_def expand_def)


subsection \<open>Loops over index ranges\<close>

lemma map_nth_upt_drop: "map ((!) xs) [k..<length xs] = drop k xs"
proof -
  have "map ((!) xs) [k..<length xs] = map ((!) xs) (drop k [0..<length xs])"
    by (simp add: drop_upt)
  also have "\<dots> = drop k (map ((!) xs) [0..<length xs])"
    by (simp add: drop_map)
  finally show ?thesis by (simp add: map_nth)
qed

lemma fold_nth_upt: "fold (\<lambda>i. f (xs ! i)) [k..<length xs] s = fold f (drop k xs) s"
proof -
  have "fold f (map ((!) xs) [k..<length xs]) s = fold (\<lambda>i. f (xs ! i)) [k..<length xs] s"
    by (simp add: fold_map comp_def)
  then show ?thesis by (simp add: map_nth_upt_drop)
qed

subsection \<open>The minimum bounding rectangle\<close>

lemma mbr_Cons: "mbr (e # es) = fold (\<lambda>e m. expand m (bounding_box e)) es (bounding_box e)"
  using fold_nth_upt[of "\<lambda>e m. expand m (bounding_box e)" "e # es" 1 "bounding_box e"]
  by (simp add: mbr_def)

lemma fold_expand_covers:
  "covers (fold (\<lambda>e m. expand m (bounding_box e)) es m0) m0
   \<and> (\<forall>e\<in>set es. covers (fold (\<lambda>e m. expand m (bounding_box e)) es m0) (bounding_box e))"
proof (induction es arbitrary: m0)
  case Nil
  then show ?case by (simp add: covers_refl)
next
  case (Cons a es)
  let ?m1 = "expand m0 (bounding_box a)"
  from Cons.IH[of ?m1] show ?case
    by (auto intro: covers_trans covers_expand1 covers_expand2)
qed

lemma fold_expand_least:
  "covers c m0 \<Longrightarrow> \<forall>e\<in>set es. covers c (bounding_box e)
   \<Longrightarrow> covers c (fold (\<lambda>e m. expand m (bounding_box e)) es m0)"
  by (induction es arbitrary: m0) (simp_all add: covers_expand_least)

lemma mbr_covers: "e \<in> set es \<Longrightarrow> covers (mbr es) (bounding_box e)"
proof (cases es)
  case Nil
  then show "e \<in> set es \<Longrightarrow> ?thesis" by simp
next
  case (Cons a as)
  assume "e \<in> set es"
  with Cons fold_expand_covers[of as "bounding_box a"] show ?thesis
    by (auto simp: mbr_Cons)
qed

lemma mbr_least: "es \<noteq> [] \<Longrightarrow> \<forall>e\<in>set es. covers c (bounding_box e) \<Longrightarrow> covers c (mbr es)"
  by (cases es) (simp_all add: mbr_Cons fold_expand_least)

subsection \<open>chooseBest\<close>

lemma fold_chooseStep_index:
  "fst (fold (chooseStep es rect) is s) \<in> insert (fst s) (set is)"
proof (induction "is" arbitrary: s)
  case Nil
  then show ?case by simp
next
  case (Cons i "is")
  have "fst (chooseStep es rect i s) = i \<or> fst (chooseStep es rect i s) = fst s"
    by (simp add: chooseStep_def Let_def)
  with Cons.IH[of "chooseStep es rect i s"] show ?case by auto
qed

lemma chooseBest_less: "es \<noteq> [] \<Longrightarrow> chooseBest es rect < length es"
  using fold_chooseStep_index[of es rect "[0..<length es]" "(0, FLT_MAX)"]
  by (auto simp: chooseBest_def)

subsection \<open>pickSeeds and the two groups\<close>

lemma fold_seedStep_inner:
  "fst (snd s) < snd (snd s) \<Longrightarrow> snd (snd s) < n \<Longrightarrow> \<forall>j\<in>set js. i < j \<and> j < n
   \<Longrightarrow> fst (snd (fold (seedStep es i) js s)) < snd (snd (fold (seedStep es i) js s))
       \<and> snd (snd (fold (seedStep es i) js s)) < n"
proof (induction js arbitrary: s)
  case Nil
  then show ?case by simp
next
  case (Cons j js)
  have "seedStep es i j s = s \<or> snd (seedStep es i j s) = (i, j)"
    by (simp add: seedStep_def Let_def)
  then have "fst (snd (seedStep es i j s)) < snd (snd (seedStep es i j s))
      \<and> snd (snd (seedStep es i j s)) < n"
    using Cons.prems by auto
  with Cons.IH[of "seedStep es i j s"] Cons.prems(3) show ?case by simp
qed

lemma fold_seedStep_outer:
  "fst (snd s) < snd (snd s) \<Longrightarrow> snd (snd s) < length es \<Longrightarrow> set is \<subseteq> {..<length es}
   \<Longrightarrow> fst (snd (fold (\<lambda>i s. fold (seedStep es i) [i + 1..<length es] s) is s))
         < snd (snd (fold (\<lambda>i s. fold (seedStep es i) [i + 1..<length es] s) is s))
       \<and> snd (snd (fold (\<lambda>i s. fold (seedStep es i) [i + 1..<length es] s) is s)) < length es"
proof (induction "is" arbitrary: s)
  case Nil
  then show ?case by simp
next
  case (Cons i "is")
  let ?s1 = "fold (seedStep es i) [i + 1..<length es] s"
  have "fst (snd ?s1) < snd (snd ?s1) \<and> snd (snd ?s1) < length es"
    by (rule fold_seedStep_inner) (use Cons.prems in auto)
  with Cons.IH[of ?s1] Cons.prems(3) show ?case by simp
qed

lemma pickSeeds_bounds:
  assumes "2 \<le> length es"
  shows "fst (pickSeeds es) < snd (pickSeeds es) \<and> snd (pickSeeds es) < length es"
proof -
  have "fst (snd (- 1 :: real, 0 :: nat, 1 :: nat)) < snd (snd (- 1 :: real, 0 :: nat, 1 :: nat))"
    by simp
  moreover have "snd (snd (- 1 :: real, 0 :: nat, 1 :: nat)) < length es"
    using assms by simp
  moreover have "set [0..<length es] \<subseteq> {..<length es}"
    by auto
  ultimately show ?thesis
    unfolding pickSeeds_def by (rule fold_seedStep_outer)
qed

lemma mset_remainingEntries:
  assumes "s1 < s2" "s2 < length es"
  shows "mset (remainingEntries es s1 s2) + {#es ! s1, es ! s2#} = mset es"
proof -
  let ?P = "\<lambda>i. i \<noteq> s1 \<and> i \<noteq> s2"
  let ?I = "mset [0..<length es]"
  have keep: "filter_mset (\<lambda>i. \<not> ?P i) ?I = {#s1, s2#}"
  proof -
    have "{i \<in> {0..<length es}. \<not> ?P i} = {s1, s2}"
      using assms by auto
    then have "filter_mset (\<lambda>i. \<not> ?P i) (mset_set {0..<length es}) = mset_set {s1, s2}"
      by (simp add: filter_mset_mset_set)
    moreover have "mset_set {s1, s2} = {#s1, s2#}"
      using assms by simp
    ultimately show ?thesis by simp
  qed
  have whole: "mset es = image_mset ((!) es) ?I"
    by (metis map_nth mset_map)
  have part: "?I = filter_mset ?P ?I + filter_mset (\<lambda>i. \<not> ?P i) ?I"
    by (rule multiset_partition)
  have "image_mset ((!) es) ?I
      = image_mset ((!) es) (filter_mset ?P ?I + filter_mset (\<lambda>i. \<not> ?P i) ?I)"
    using part by (rule arg_cong)
  also have "\<dots> = image_mset ((!) es) (filter_mset ?P ?I) + image_mset ((!) es) {#s1, s2#}"
    by (simp only: image_mset_union keep)
  also have "image_mset ((!) es) {#s1, s2#} = {#es ! s1, es ! s2#}"
    by simp
  finally have "mset es = image_mset ((!) es) (filter_mset ?P ?I) + {#es ! s1, es ! s2#}"
    using whole by simp
  moreover have "mset (remainingEntries es s1 s2) = image_mset ((!) es) (filter_mset ?P ?I)"
    unfolding remainingEntries_def by (simp only: mset_map mset_filter)
  ultimately show ?thesis by simp
qed

lemma splitGroups_ok:
  assumes "2 \<le> length es"
  shows "\<exists>g1 g2. splitGroups es = Inr (g1, g2) \<and> g1 \<noteq> [] \<and> g2 \<noteq> [] \<and> mset g1 + mset g2 = mset es"
proof -
  obtain s1 s2 where ps: "pickSeeds es = (s1, s2)" by (cases "pickSeeds es")
  with pickSeeds_bounds[OF assms] have b: "s1 < s2" "s2 < length es" by auto
  let ?rem = "remainingEntries es s1 s2"
  let ?P = "nearerSeed1 (es ! s1) (es ! s2)"
  have eq: "splitGroups es = Inr (es ! s1 # filter ?P ?rem, es ! s2 # filter (\<lambda>e. \<not> ?P e) ?rem)"
    using ps b by (simp add: splitGroups_def distribute_seeds)
  have "mset (filter ?P ?rem) + mset (filter (\<lambda>e. \<not> ?P e) ?rem) = mset ?rem"
    by (metis mset_filter multiset_partition)
  then have "mset (es ! s1 # filter ?P ?rem) + mset (es ! s2 # filter (\<lambda>e. \<not> ?P e) ?rem)
      = mset ?rem + {#es ! s1, es ! s2#}"
    by (simp add: ac_simps)
  with mset_remainingEntries[OF b] eq show ?thesis by auto
qed

subsection \<open>Sums over the arena\<close>

lemma sum_list_map_update:
  fixes f :: "'a \<Rightarrow> 'b::comm_monoid_add"
  shows "i < length xs \<Longrightarrow> sum_list (map f (xs[i := x])) + f (xs ! i) = sum_list (map f xs) + f x"
proof (induction xs arbitrary: i)
  case Nil
  then show ?case by simp
next
  case (Cons a xs)
  show ?case
  proof (cases i)
    case 0
    then show ?thesis by (simp add: ac_simps)
  next
    case (Suc j)
    with Cons.prems have "j < length xs" by simp
    from Cons.IH[OF this] Suc show ?thesis
      by (simp add: add.assoc)
  qed
qed

lemma allChildren_append: "allChildren (ns @ ms) = allChildren ns + allChildren ms"
  by (simp add: allChildren_def)

lemma allChildren_single: "allChildren [n] = childrenOf n"
  by (simp add: allChildren_def)

lemma allChildren_update:
  "i < length ns \<Longrightarrow> allChildren (ns[i := n]) + childrenOf (ns ! i) = allChildren ns + childrenOf n"
  unfolding allChildren_def by (rule sum_list_map_update)

lemma allLeafEntries_append: "allLeafEntries (ns @ ms) = allLeafEntries ns + allLeafEntries ms"
  by (simp add: allLeafEntries_def)

lemma allLeafEntries_single: "allLeafEntries [n] = leafEntries n"
  by (simp add: allLeafEntries_def)

lemma allLeafEntries_update:
  "i < length ns \<Longrightarrow> allLeafEntries (ns[i := n]) + leafEntries (ns ! i) = allLeafEntries ns + leafEntries n"
  unfolding allLeafEntries_def by (rule sum_list_map_update)

lemma childrenOf_subset: "i < length ns \<Longrightarrow> set_mset (childrenOf (ns ! i)) \<subseteq> set_mset (allChildren ns)"
proof -
  assume "i < length ns"
  then have "ns ! i \<in> set ns" by simp
  then show ?thesis by (auto simp: allChildren_def)
qed

subsection \<open>Consequences of the tree shape\<close>

lemma treeShape_child:
  assumes "treeShape lvl ns rt" "i < length ns" "\<not> is_leaf (ns ! i)" "e \<in> set (entries (ns ! i))"
  shows "child_index e < length ns" "Suc (lvl (child_index e)) = lvl i" "child_index e \<noteq> rt"
    "child_index e \<noteq> i"
proof -
  have "child_index e \<in># childrenOf (ns ! i)"
    using assms(3,4) by (simp add: childrenOf_def)
  then have "child_index e \<in># allChildren ns"
    using childrenOf_subset[OF assms(2)] by blast
  then have "child_index e \<in># mset [0..<length ns]"
    using assms(1) by (metis treeShape_def union_iff)
  then show "child_index e < length ns" by simp
  show l: "Suc (lvl (child_index e)) = lvl i"
    using assms by (simp add: treeShape_def)
  have "lvl i \<le> lvl rt" using assms by (simp add: treeShape_def)
  with l show "child_index e \<noteq> rt" by auto
  from l show "child_index e \<noteq> i" by auto
qed

lemma treeShape_root: "treeShape lvl ns rt \<Longrightarrow> rt < length ns"
  by (simp add: treeShape_def)

lemma treeShape_entries: 
  "treeShape lvl ns rt \<Longrightarrow> i < length ns \<Longrightarrow> \<not> is_leaf (ns ! i) \<Longrightarrow> entries (ns ! i) \<noteq> []"
  by (simp add: treeShape_def)

lemma treeShape_leaf: 
  "treeShape lvl ns rt \<Longrightarrow> i < length ns \<Longrightarrow> is_leaf (ns ! i) \<longleftrightarrow> lvl i = 0"
  by (simp add: treeShape_def)

lemma treeShape_level_le: 
  "treeShape lvl ns rt \<Longrightarrow> i < length ns \<Longrightarrow> lvl i \<le> lvl rt"
  by (simp add: treeShape_def)

lemma hasChild_iff:
  "hasChild c n \<longleftrightarrow> \<not> is_leaf n \<and> (\<exists>e\<in>set (entries n). child_index e = c)"
  by (auto simp: hasChild_def list_ex_iff)

lemma hasChild_childrenOf: "hasChild c n \<longleftrightarrow> c \<in># childrenOf n"
  by (auto simp: hasChild_iff childrenOf_def)

lemma treeShape_has_parent:
  assumes "treeShape lvl ns rt" "i < length ns" "i \<noteq> rt"
  shows "\<exists>p<length ns. hasChild i (ns ! p)"
proof -
  have "i \<in># mset [0..<length ns]" using assms(2) by simp
  then have "i \<in># allChildren ns + {#rt#}" using assms(1) by (simp add: treeShape_def)
  with assms(3) have "i \<in># allChildren ns" by simp
  then obtain n where "n \<in> set ns" "i \<in># childrenOf n"
    by (auto simp: allChildren_def)
  then show ?thesis
    by (auto simp: in_set_conv_nth hasChild_childrenOf)
qed

lemma distinct_concat_nth:
  "distinct (concat xss) \<Longrightarrow> i < length xss \<Longrightarrow> j < length xss \<Longrightarrow> x \<in> set (xss ! i)
   \<Longrightarrow> x \<in> set (xss ! j) \<Longrightarrow> i = j"
proof (induction xss arbitrary: i j)
  case Nil
  then show ?case by simp
next
  case (Cons xs xss)
  show ?case
  proof (cases i)
    case 0
    show ?thesis
    proof (cases j)
      case (Suc j')
      with Cons.prems 0 have "x \<in> set xs" "x \<in> set (concat xss)" by auto
      with Cons.prems(1) show ?thesis by auto
    qed (simp add: 0)
  next
    case (Suc i')
    show ?thesis
    proof (cases j)
      case 0
      with Cons.prems Suc have "x \<in> set xs" "x \<in> set (concat xss)" by auto
      with Cons.prems(1) show ?thesis by auto
    next
      case (Suc j')
      with Cons.prems \<open>i = Suc i'\<close> Cons.IH[of i' j'] show ?thesis by auto
    qed
  qed
qed

lemma treeShape_children_distinct:
  assumes "treeShape lvl ns rt"
  shows "distinct (concat (map (\<lambda>n. if is_leaf n then [] else map child_index (entries n)) ns))"
proof -
  let ?cl = "\<lambda>n::'a Node. if is_leaf n then [] else map child_index (entries n)"
  have "mset (concat (map ?cl ns)) = allChildren ns"
    by (simp add: mset_concat allChildren_def childrenOf_def[abs_def] comp_def if_distrib cong: if_cong)
  then have "mset (rt # concat (map ?cl ns)) = mset [0..<length ns]"
    using assms by (simp add: treeShape_def)
  then have "distinct (rt # concat (map ?cl ns))"
    by (metis distinct_upt mset_eq_imp_distinct_iff)
  then show ?thesis by simp
qed

lemma unique_parent_entry:
  assumes "treeShape lvl ns rt" "p < length ns" "q < length ns"
    "\<not> is_leaf (ns ! p)" "\<not> is_leaf (ns ! q)"
    "k < length (entries (ns ! p))" "l < length (entries (ns ! q))"
    "child_index (entries (ns ! p) ! k) = child_index (entries (ns ! q) ! l)"
  shows "p = q \<and> k = l"
proof -
  let ?cl = "\<lambda>n::'a Node. if is_leaf n then [] else map child_index (entries n)"
  let ?c = "child_index (entries (ns ! p) ! k)"
  have d: "distinct (concat (map ?cl ns))" by (rule treeShape_children_distinct[OF assms(1)])
  have "entries (ns ! p) ! k \<in> set (entries (ns ! p))" "entries (ns ! q) ! l \<in> set (entries (ns ! q))"
    using assms(6,7) by simp_all
  then have "?c \<in> child_index ` set (entries (ns ! p))" "?c \<in> child_index ` set (entries (ns ! q))"
    using assms(8) by (blast, metis imageI)
  then have "?c \<in> set (map ?cl ns ! p)" "?c \<in> set (map ?cl ns ! q)"
    using assms(2-5) by simp_all
  with distinct_concat_nth[OF d, of p q ?c] assms(2,3) have pq: "p = q" by simp
  have "map ?cl ns ! p \<in> set (map ?cl ns)"
    by (rule nth_mem) (simp add: assms(2))
  with d have "distinct (map ?cl ns ! p)"
    unfolding distinct_concat_iff by blast
  then have "distinct (map child_index (entries (ns ! p)))" using assms(2,4) by simp
  moreover have "map child_index (entries (ns ! p)) ! k = map child_index (entries (ns ! p)) ! l"
    using assms pq by simp
  ultimately have "k = l"
    using assms(6,7) pq by (simp add: nth_eq_iff_index_eq del: nth_map)
  with pq show ?thesis by simp
qed

subsection \<open>Growing rectangles\<close>

lemma grownEntry_refl: "grownEntry e e"
  by (simp add: grownEntry_def covers_refl)

lemma grownEntry_trans: "grownEntry a b \<Longrightarrow> grownEntry b c \<Longrightarrow> grownEntry a c"
  by (auto simp: grownEntry_def intro: covers_trans)

lemma grownNode_refl: "grownNode n n"
  by (simp add: grownNode_def list_all2_refl grownEntry_refl)

lemma grownNode_trans: "grownNode a b \<Longrightarrow> grownNode b c \<Longrightarrow> grownNode a c"
  unfolding grownNode_def
  by (auto intro: list_all2_trans[where ?P1.0 = grownEntry and ?P2.0 = grownEntry] grownEntry_trans)

lemma grown_refl: "grown ns ns"
  by (simp add: grown_def list_all2_refl grownNode_refl)

lemma grown_trans: "grown a b \<Longrightarrow> grown b c \<Longrightarrow> grown a c"
  unfolding grown_def
  by (rule list_all2_trans[where ?P1.0 = grownNode and ?P2.0 = grownNode]) (auto intro: grownNode_trans)

lemma grown_length: "grown ns ns' \<Longrightarrow> length ns' = length ns"
  by (simp add: grown_def list_all2_lengthD)

lemma grown_nth: "grown ns ns' \<Longrightarrow> i < length ns \<Longrightarrow> grownNode (ns ! i) (ns' ! i)"
  by (simp add: grown_def list_all2_nthD)

lemma grown_update: "i < length ns \<Longrightarrow> grownNode (ns ! i) n \<Longrightarrow> grown ns (ns[i := n])"
proof -
  assume a: "i < length ns" "grownNode (ns ! i) n"
  have "list_all2 grownNode (ns[i := ns ! i]) (ns[i := n])"
    by (rule list_all2_update_cong) (use a grown_refl[of ns] in \<open>auto simp: grown_def\<close>)
  then show ?thesis by (simp add: grown_def)
qed

lemma grownNode_leaf: "grownNode n n' \<Longrightarrow> is_leaf n' = is_leaf n"
  by (simp add: grownNode_def)

lemma grownNode_children: "grownNode n n' \<Longrightarrow> map child_index (entries n') = map child_index (entries n)"
  unfolding grownNode_def
  by (auto simp: list_all2_conv_all_nth grownEntry_def intro!: nth_equalityI)

lemma grownNode_length: "grownNode n n' \<Longrightarrow> length (entries n') = length (entries n)"
  by (auto simp: grownNode_def dest: list_all2_lengthD)

lemma grownNode_childrenOf: "grownNode n n' \<Longrightarrow> childrenOf n' = childrenOf n"
  using grownNode_children[of n n'] by (simp add: childrenOf_def grownNode_leaf)

lemma grownNode_leafEntries: "grownNode n n' \<Longrightarrow> leafEntries n' = leafEntries n"
  by (auto simp: leafEntries_def grownNode_def)

lemma allChildren_grown: "grown ns ns' \<Longrightarrow> allChildren ns' = allChildren ns"
proof -
  assume g: "grown ns ns'"
  have "map childrenOf ns' = map childrenOf ns"
    by (rule nth_equalityI) (use g in \<open>auto simp: grown_length dest: grown_nth grownNode_childrenOf\<close>)
  then show ?thesis by (simp add: allChildren_def)
qed

lemma allLeafEntries_grown: "grown ns ns' \<Longrightarrow> allLeafEntries ns' = allLeafEntries ns"
proof -
  assume g: "grown ns ns'"
  have "map leafEntries ns' = map leafEntries ns"
    by (rule nth_equalityI) (use g in \<open>auto simp: grown_length dest: grown_nth grownNode_leafEntries\<close>)
  then show ?thesis by (simp add: allLeafEntries_def)
qed

lemma grownNode_child_set:
  "grownNode n n' \<Longrightarrow> child_index ` set (entries n') = child_index ` set (entries n)"
  using grownNode_children[of n n'] by (metis set_map)

lemma treeShape_grown:
  assumes "treeShape lvl ns rt" "grown ns ns'"
  shows "treeShape lvl ns' rt"
proof -
  have len: "length ns' = length ns" by (rule grown_length[OF assms(2)])
  have node: "\<And>i. i < length ns \<Longrightarrow> grownNode (ns ! i) (ns' ! i)"
    by (rule grown_nth[OF assms(2)])
  have "\<forall>i<length ns'. lvl i \<le> lvl rt \<and> (is_leaf (ns' ! i) \<longleftrightarrow> lvl i = 0) \<and>
         (\<not> is_leaf (ns' ! i) \<longrightarrow> entries (ns' ! i) \<noteq> [] \<and>
            (\<forall>e\<in>set (entries (ns' ! i)). Suc (lvl (child_index e)) = lvl i))"
  proof (intro allI impI)
    fix i assume i: "i < length ns'"
    then have g: "grownNode (ns ! i) (ns' ! i)" using node len by simp
    have old: "lvl i \<le> lvl rt" "is_leaf (ns ! i) \<longleftrightarrow> lvl i = 0"
      "\<not> is_leaf (ns ! i) \<longrightarrow> entries (ns ! i) \<noteq> [] \<and>
            (\<forall>e\<in>set (entries (ns ! i)). Suc (lvl (child_index e)) = lvl i)"
      using assms(1) i len by (simp_all add: treeShape_def)
    have "\<not> is_leaf (ns' ! i) \<longrightarrow> entries (ns' ! i) \<noteq> [] \<and>
            (\<forall>e\<in>set (entries (ns' ! i)). Suc (lvl (child_index e)) = lvl i)"
    proof (intro impI conjI ballI)
      assume nl: "\<not> is_leaf (ns' ! i)"
      then have nl0: "\<not> is_leaf (ns ! i)" using grownNode_leaf[OF g] by simp
      show "entries (ns' ! i) \<noteq> []"
        using grownNode_length[OF g] old(3) nl0 by auto
      fix e assume "e \<in> set (entries (ns' ! i))"
      then have "child_index e \<in> child_index ` set (entries (ns ! i))"
        using grownNode_child_set[OF g] by blast
      then show "Suc (lvl (child_index e)) = lvl i"
        using old(3) nl0 by auto
    qed
    then show "lvl i \<le> lvl rt \<and> (is_leaf (ns' ! i) \<longleftrightarrow> lvl i = 0) \<and>
         (\<not> is_leaf (ns' ! i) \<longrightarrow> entries (ns' ! i) \<noteq> [] \<and>
            (\<forall>e\<in>set (entries (ns' ! i)). Suc (lvl (child_index e)) = lvl i))"
      using old grownNode_leaf[OF g] by simp
  qed
  then show ?thesis
    using assms(1) by (simp add: treeShape_def len allChildren_grown[OF assms(2)])
qed

lemma dataOk_grown:
  assumes "dataOk ns" "grown ns ns'"
  shows "dataOk ns'"
  unfolding dataOk_def
proof (intro ballI impI)
  fix n e assume n: "n \<in> set ns'" "is_leaf n" and e: "e \<in> set (entries n)"
  from n(1) obtain i where i: "i < length ns'" "ns' ! i = n" by (auto simp: in_set_conv_nth)
  then have g: "grownNode (ns ! i) n" using grown_nth[OF assms(2), of i] grown_length[OF assms(2)] by simp
  with n(2) have "n = ns ! i" by (auto simp: grownNode_def)
  moreover have "ns ! i \<in> set ns" using i grown_length[OF assms(2)] by simp
  ultimately show "data e \<noteq> None" using assms(1) n(2) e by (auto simp: dataOk_def)
qed

subsection \<open>chooseLeaf\<close>

lemma grownNode_descend:
  "\<not> is_leaf node \<Longrightarrow> grownNode node (descendNode rect node)"
proof -
  assume nl: "\<not> is_leaf node"
  let ?es = "entries node" and ?b = "chooseBest (entries node) rect"
  have "list_all2 grownEntry (?es[?b := ?es ! ?b]) (?es[?b := expandEntry rect (?es ! ?b)])"
    by (rule list_all2_update_cong)
      (simp_all add: list_all2_refl grownEntry_refl grownEntry_def expandEntry_def covers_expand1)
  then show ?thesis using nl by (simp add: grownNode_def descendNode_def)
qed

lemma chooseLeaf_internal:
  assumes "i < length ns" "\<not> is_leaf (ns ! i)" "chooseBest (entries (ns ! i)) rect < length (entries (ns ! i))"
  shows "chooseLeaf (Suc fuel) ns i rect =
     chooseLeaf fuel (ns[i := descendNode rect (ns ! i)])
       (child_index (entries (ns ! i) ! chooseBest (entries (ns ! i)) rect)) rect"
  using assms by (simp add: Let_def descendNode_def expandEntry_def)

lemma chooseLeaf_grown:
  "chooseLeaf fuel ns i rect = Some (Inr (leaf, ns'))
   \<Longrightarrow> grown ns ns' \<and> leaf < length ns \<and> is_leaf (ns ! leaf) \<and> ns' ! leaf = ns ! leaf"
proof (induction fuel arbitrary: ns i)
  case 0
  then show ?case by simp
next
  case (Suc fuel)
  show ?case
  proof (cases "i < length ns")
    case False
    with Suc.prems show ?thesis by simp
  next
    case i: True
    show ?thesis
    proof (cases "is_leaf (ns ! i)")
      case True
      with Suc.prems i show ?thesis by (auto simp: grown_refl)
    next
      case nl: False
      let ?b = "chooseBest (entries (ns ! i)) rect"
      show ?thesis
      proof (cases "?b < length (entries (ns ! i))")
        case False
        with Suc.prems i nl show ?thesis by (simp add: Let_def)
      next
        case True
        let ?ns1 = "ns[i := descendNode rect (ns ! i)]"
        from Suc.prems have "chooseLeaf fuel ?ns1 (child_index (entries (ns ! i) ! ?b)) rect
            = Some (Inr (leaf, ns'))"
          by (simp only: chooseLeaf_internal[OF i nl True])
        from Suc.IH[OF this] have ih: "grown ?ns1 ns'" "leaf < length ns" "is_leaf (?ns1 ! leaf)"
          "ns' ! leaf = ?ns1 ! leaf"
          by simp_all
        have g1: "grown ns ?ns1"
          by (rule grown_update[OF i grownNode_descend[OF nl]])
        have "leaf \<noteq> i"
          using ih(2,3) i nl grownNode_leaf[OF grownNode_descend[OF nl, of rect]] by auto
        with ih g1 show ?thesis by (auto intro: grown_trans)
      qed
    qed
  qed
qed

lemma chooseLeaf_total:
  "treeShape lvl ns rt \<Longrightarrow> i < length ns \<Longrightarrow> lvl i < fuel
   \<Longrightarrow> \<exists>leaf ns'. chooseLeaf fuel ns i rect = Some (Inr (leaf, ns'))"
proof (induction fuel arbitrary: ns i)
  case 0
  then show ?case by simp
next
  case (Suc fuel)
  show ?case
  proof (cases "is_leaf (ns ! i)")
    case True
    with Suc.prems show ?thesis by simp
  next
    case nl: False
    let ?es = "entries (ns ! i)"
    let ?b = "chooseBest ?es rect"
    have b: "?b < length ?es"
      by (rule chooseBest_less) (rule treeShape_entries[OF Suc.prems(1,2) nl])
    then have mem: "?es ! ?b \<in> set ?es" by simp
    let ?ns1 = "ns[i := descendNode rect (ns ! i)]"
    have ts: "treeShape lvl ?ns1 rt"
      by (rule treeShape_grown[OF Suc.prems(1) grown_update[OF Suc.prems(2) grownNode_descend[OF nl]]])
    have "child_index (?es ! ?b) < length ?ns1" "lvl (child_index (?es ! ?b)) < fuel"
      using treeShape_child(1,2)[OF Suc.prems(1,2) nl mem] Suc.prems(3) by simp_all
    from Suc.IH[OF ts this] show ?thesis
      by (simp only: chooseLeaf_internal[OF Suc.prems(2) nl b])
  qed
qed

lemma chooseLeaf_no_error:
  "treeShape lvl ns rt \<Longrightarrow> i < length ns \<Longrightarrow> chooseLeaf fuel ns i rect \<noteq> Some (Inl e)"
proof (induction fuel arbitrary: ns i)
  case 0
  then show ?case by simp
next
  case (Suc fuel)
  show ?case
  proof (cases "is_leaf (ns ! i)")
    case True
    with Suc.prems show ?thesis by simp
  next
    case nl: False
    let ?es = "entries (ns ! i)"
    let ?b = "chooseBest ?es rect"
    have b: "?b < length ?es"
      by (rule chooseBest_less) (rule treeShape_entries[OF Suc.prems(1,2) nl])
    then have mem: "?es ! ?b \<in> set ?es" by simp
    let ?ns1 = "ns[i := descendNode rect (ns ! i)]"
    have ts: "treeShape lvl ?ns1 rt"
      by (rule treeShape_grown[OF Suc.prems(1) grown_update[OF Suc.prems(2) grownNode_descend[OF nl]]])
    have "child_index (?es ! ?b) < length ?ns1"
      using treeShape_child(1)[OF Suc.prems(1,2) nl mem] by simp
    from Suc.IH[OF ts this] show ?thesis
      by (simp add: chooseLeaf_internal[OF Suc.prems(2) nl b] del: chooseLeaf.simps)
  qed
qed

lemma boxesOkD:
  "boxesOk ns \<Longrightarrow> i < length ns \<Longrightarrow> \<not> is_leaf (ns ! i) \<Longrightarrow> e \<in> set (entries (ns ! i))
   \<Longrightarrow> e' \<in> set (entries (ns ! child_index e)) \<Longrightarrow> covers (bounding_box e) (bounding_box e')"
  by (simp add: boxesOk_def)

lemma pathCoversD:
  "pathCovers ns c rect \<Longrightarrow> p < length ns \<Longrightarrow> \<not> is_leaf (ns ! p) \<Longrightarrow> e \<in> set (entries (ns ! p))
   \<Longrightarrow> child_index e = c \<Longrightarrow> covers (bounding_box e) rect"
  by (simp add: pathCovers_def)

lemma descend_step:
  assumes ts: "treeShape lvl ns rt" and bo: "boxesOk ns" and i: "i < length ns"
    and nl: "\<not> is_leaf (ns ! i)" and pc: "pathCovers ns i rect"
  shows "boxesOk (ns[i := descendNode rect (ns ! i)])"
    and "pathCovers (ns[i := descendNode rect (ns ! i)])
           (child_index (entries (ns ! i) ! chooseBest (entries (ns ! i)) rect)) rect"
proof -
  let ?es = "entries (ns ! i)"
  let ?b = "chooseBest ?es rect"
  let ?ee = "expandEntry rect (?es ! ?b)"
  let ?ns1 = "ns[i := descendNode rect (ns ! i)]"
  let ?c = "child_index (?es ! ?b)"
  have b: "?b < length ?es"
    by (rule chooseBest_less) (rule treeShape_entries[OF ts i nl])
  then have bmem: "?es ! ?b \<in> set ?es" by simp
  have es1: "entries (?ns1 ! i) = ?es[?b := ?ee]"
    using i by (simp add: descendNode_def)
  have leaf1: "\<And>p. p < length ns \<Longrightarrow> is_leaf (?ns1 ! p) = is_leaf (ns ! p)"
    using i by (simp add: descendNode_def nth_list_update)
  have other: "\<And>p. p \<noteq> i \<Longrightarrow> ?ns1 ! p = ns ! p" by simp
  have sub: "set (?es[?b := ?ee]) \<subseteq> insert ?ee (set ?es)"
    by (rule set_update_subset_insert)
  have ee_child: "child_index ?ee = ?c" by (simp add: expandEntry_def)
  have ee_box: "bounding_box ?ee = expand (bounding_box (?es ! ?b)) rect" by (simp add: expandEntry_def)
  show "boxesOk ?ns1"
    unfolding boxesOk_def
  proof (intro allI impI ballI)
    fix p e e'
    assume p: "p < length ?ns1" and pl: "\<not> is_leaf (?ns1 ! p)"
      and e: "e \<in> set (entries (?ns1 ! p))" and e': "e' \<in> set (entries (?ns1 ! child_index e))"
    show "covers (bounding_box e) (bounding_box e')"
    proof (cases "p = i")
      case True
      with e es1 sub have e_in: "e = ?ee \<or> e \<in> set ?es" by auto
      have ci: "child_index e \<noteq> i"
      proof (cases "e = ?ee")
        case True
        then have "child_index e = ?c" by (simp only: ee_child)
        then show ?thesis using treeShape_child(4)[OF ts i nl bmem] by simp
      next
        case False
        with e_in have "e \<in> set ?es" by simp
        then show ?thesis by (rule treeShape_child(4)[OF ts i nl])
      qed
      with e' have e'0: "e' \<in> set (entries (ns ! child_index e))" by simp
      from e_in show ?thesis
      proof
        assume "e \<in> set ?es"
        then show ?thesis using e'0 by (rule boxesOkD[OF bo i nl])
      next
        assume eq: "e = ?ee"
        with e'0 ee_child have "covers (bounding_box (?es ! ?b)) (bounding_box e')"
          using boxesOkD[OF bo i nl bmem] by simp
        moreover have "covers (bounding_box e) (bounding_box (?es ! ?b))"
          by (simp add: eq ee_box covers_expand1)
        ultimately show ?thesis by (blast intro: covers_trans)
      qed
    next
      case False
      with p pl e have p0: "p < length ns" "\<not> is_leaf (ns ! p)" "e \<in> set (entries (ns ! p))"
        by simp_all
      show ?thesis
      proof (cases "child_index e = i")
        case True
        with e' es1 sub have "e' = ?ee \<or> e' \<in> set ?es" by auto
        then show ?thesis
        proof
          assume "e' \<in> set ?es"
          then show ?thesis using boxesOkD[OF bo p0] True by simp
        next
          assume eq: "e' = ?ee"
          have "covers (bounding_box e) (bounding_box (?es ! ?b))"
            using boxesOkD[OF bo p0] True bmem by simp
          moreover have "covers (bounding_box e) rect"
            by (rule pathCoversD[OF pc p0 True])
          ultimately show ?thesis by (simp add: eq ee_box covers_expand_least)
        qed
      next
        case False
        with e' have "e' \<in> set (entries (ns ! child_index e))" by simp
        then show ?thesis by (rule boxesOkD[OF bo p0])
      qed
    qed
  qed
  show "pathCovers ?ns1 ?c rect"
    unfolding pathCovers_def
  proof (intro allI impI ballI)
    fix p e
    assume p: "p < length ?ns1" and pl: "\<not> is_leaf (?ns1 ! p)"
      and e: "e \<in> set (entries (?ns1 ! p))" and ce: "child_index e = ?c"
    show "covers (bounding_box e) rect"
    proof (cases "p = i")
      case True
      from e obtain k where k: "k < length ?es" "e = ?es[?b := ?ee] ! k"
        using es1 True by (auto simp: in_set_conv_nth)
      show ?thesis
      proof (cases "k = ?b")
        case True
        with k b have "e = ?ee" by simp
        then show ?thesis by (simp add: ee_box covers_expand2)
      next
        case False
        with k have "e = ?es ! k" by simp
        with ce have "child_index (?es ! k) = child_index (?es ! ?b)" by simp
        from unique_parent_entry[OF ts i i nl nl k(1) b this] False show ?thesis by simp
      qed
    next
      case False
      with p pl e have p0: "p < length ns" "\<not> is_leaf (ns ! p)" "e \<in> set (entries (ns ! p))"
        by simp_all
      from p0(3) obtain k where k: "k < length (entries (ns ! p))" "e = entries (ns ! p) ! k"
        by (auto simp: in_set_conv_nth)
      with ce have "child_index (entries (ns ! p) ! k) = child_index (?es ! ?b)" by simp
      from unique_parent_entry[OF ts p0(1) i p0(2) nl k(1) b this] False show ?thesis by simp
    qed
  qed
qed

lemma chooseLeaf_boxes:
  "treeShape lvl ns rt \<Longrightarrow> boxesOk ns \<Longrightarrow> i < length ns \<Longrightarrow> pathCovers ns i rect
   \<Longrightarrow> chooseLeaf fuel ns i rect = Some (Inr (leaf, ns'))
   \<Longrightarrow> boxesOk ns' \<and> pathCovers ns' leaf rect"
proof (induction fuel arbitrary: ns i)
  case 0
  then show ?case by simp
next
  case (Suc fuel)
  show ?case
  proof (cases "is_leaf (ns ! i)")
    case True
    with Suc.prems show ?thesis by simp
  next
    case nl: False
    let ?es = "entries (ns ! i)"
    let ?b = "chooseBest ?es rect"
    let ?ns1 = "ns[i := descendNode rect (ns ! i)]"
    have b: "?b < length ?es"
      by (rule chooseBest_less) (rule treeShape_entries[OF Suc.prems(1,3) nl])
    then have mem: "?es ! ?b \<in> set ?es" by simp
    have ts: "treeShape lvl ?ns1 rt"
      by (rule treeShape_grown[OF Suc.prems(1) grown_update[OF Suc.prems(3) grownNode_descend[OF nl]]])
    have c: "child_index (?es ! ?b) < length ?ns1"
      using treeShape_child(1)[OF Suc.prems(1,3) nl mem] by simp
    have run: "chooseLeaf fuel ?ns1 (child_index (?es ! ?b)) rect = Some (Inr (leaf, ns'))"
      using Suc.prems(5) by (simp only: chooseLeaf_internal[OF Suc.prems(3) nl b])
    show ?thesis
      by (rule Suc.IH[OF ts descend_step(1)[OF Suc.prems(1,2,3) nl Suc.prems(4)] c
            descend_step(2)[OF Suc.prems(1,2,3) nl Suc.prems(4)] run])
  qed
qed

subsection \<open>The parent's entry\<close>

lemma length_updateParentEntry [simp]: "length (updateParentEntry c m es) = length es"
  by (induction es) simp_all

lemma map_child_updateParentEntry [simp]:
  "map child_index (updateParentEntry c m es) = map child_index es"
  by (induction es) simp_all

lemma set_updateParentEntry:
  "e \<in> set (updateParentEntry c m es)
   \<Longrightarrow> e \<in> set es \<or> (\<exists>e0\<in>set es. child_index e0 = c \<and> e = e0\<lparr>bounding_box := m\<rparr>)"
  by (induction es) (auto split: if_splits)

subsection \<open>findParent\<close>

lemma findParent_Inr:
  "findParent ns c = Inr p \<Longrightarrow> p < length ns \<and> hasChild c (ns ! p)"
  by (auto simp: findParent_def find_Some_iff split: option.splits)

lemma findParent_found:
  "p < length ns \<Longrightarrow> hasChild c (ns ! p) \<Longrightarrow> \<exists>q. findParent ns c = Inr q"
  by (cases "find (\<lambda>i. hasChild c (ns ! i)) [0..<length ns]")
     (auto simp: findParent_def find_None_iff)

lemma findParent_split:
  assumes ts: "treeShape lvl ns rt" and i: "i < length ns" and nr: "i \<noteq> rt"
    and sub: "set g1 \<subseteq> set (entries (ns ! i))"
  shows "\<exists>p. findParent (ns[i := (ns ! i)\<lparr>entries := g1\<rparr>]) i = Inr p \<and> p < length ns \<and> p \<noteq> i
            \<and> hasChild i (ns ! p)"
proof -
  let ?ns1 = "ns[i := (ns ! i)\<lparr>entries := g1\<rparr>]"
  have self: "\<And>n. \<not> hasChild i ((ns ! i)\<lparr>entries := g1\<rparr>)"
  proof
    assume "hasChild i ((ns ! i)\<lparr>entries := g1\<rparr>)"
    then obtain e where "\<not> is_leaf (ns ! i)" "e \<in> set g1" "child_index e = i"
      by (auto simp: hasChild_iff)
    with sub treeShape_child(4)[OF ts i] show False by blast
  qed
  obtain p0 where p0: "p0 < length ns" "hasChild i (ns ! p0)"
    using treeShape_has_parent[OF ts i nr] by blast
  have "p0 \<noteq> i"
    using p0 treeShape_child(4)[OF ts i] by (auto simp: hasChild_iff)
  with p0 have "p0 < length ?ns1" "hasChild i (?ns1 ! p0)" by simp_all
  then obtain p where p: "findParent ?ns1 i = Inr p" using findParent_found by blast
  from findParent_Inr[OF p] have pl: "p < length ns" and hc: "hasChild i (?ns1 ! p)" by simp_all
  have "p \<noteq> i" using hc self i by auto
  with p pl hc show ?thesis by auto
qed

subsection \<open>One step of splitNode\<close>

lemma splitNode_root:
  assumes "i < length (nodes t)" "splitGroups (entries (nodes t ! i)) = Inr (g1, g2)"
    "i = root_index t"
  shows "splitNode (Suc fuel) t i =
     Some (Inr \<lparr>nodes = splitRootNodes (nodes t) i g1 g2, root_index = length (nodes t)\<rparr>)"
  using assms
  by (simp add: Let_def createNode_def mkNode_def splitRootNodes_def nth_append list_update_append)

lemma splitNode_inner:
  assumes "i < length (nodes t)" "splitGroups (entries (nodes t ! i)) = Inr (g1, g2)"
    "i \<noteq> root_index t" "findParent ((nodes t)[i := (nodes t ! i)\<lparr>entries := g1\<rparr>]) i = Inr p"
    "p < length (nodes t)" "p \<noteq> i"
  shows "splitNode (Suc fuel) t i =
     (if length (entries (nodes t ! p)) + 1 > MAX_ENTRIES
      then splitNode fuel \<lparr>nodes = splitInnerNodes (nodes t) i p g1 g2, root_index = root_index t\<rparr> p
      else Some (Inr \<lparr>nodes = splitInnerNodes (nodes t) i p g1 g2, root_index = root_index t\<rparr>))"
  using assms
  by (simp add: Let_def splitInnerNodes_def nth_append list_update_append)

lemma mset_upt_Suc: "mset [0..<Suc n] = mset [0..<n] + {#n#}"
  by (simp del: mset_upt)

lemma treeShape_children: "treeShape lvl ns rt \<Longrightarrow> allChildren ns + {#rt#} = mset [0..<length ns]"
  by (simp add: treeShape_def)

lemma treeShapeI:
  assumes "rt < length ns" "allChildren ns + {#rt#} = mset [0..<length ns]"
    "\<And>j. j < length ns \<Longrightarrow> lvl j \<le> lvl rt"
    "\<And>j. j < length ns \<Longrightarrow> is_leaf (ns ! j) \<longleftrightarrow> lvl j = 0"
    "\<And>j. j < length ns \<Longrightarrow> \<not> is_leaf (ns ! j) \<Longrightarrow> entries (ns ! j) \<noteq> []"
    "\<And>j e. j < length ns \<Longrightarrow> \<not> is_leaf (ns ! j) \<Longrightarrow> e \<in> set (entries (ns ! j))
        \<Longrightarrow> Suc (lvl (child_index e)) = lvl j"
  shows "treeShape lvl ns rt"
  unfolding treeShape_def using assms by blast

lemma groups_subset:
  assumes "mset g1 + mset g2 = mset es"
  shows "set g1 \<subseteq> set es" "set g2 \<subseteq> set es"
proof -
  have "set es = set g1 \<union> set g2"
    by (metis assms set_mset_mset set_mset_union)
  then show "set g1 \<subseteq> set es" "set g2 \<subseteq> set es" by auto
qed

lemma groups_childrenOf:
  assumes "mset g1 + mset g2 = mset (entries n)"
  shows "childrenOf (n\<lparr>entries := g1\<rparr>) + childrenOf \<lparr>is_leaf = is_leaf n, entries = g2\<rparr> = childrenOf n"
proof -
  have "image_mset child_index (mset g1 + mset g2) = image_mset child_index (mset (entries n))"
    using assms by (rule arg_cong)
  then show ?thesis by (simp add: childrenOf_def)
qed

lemma groups_leafEntries:
  assumes "mset g1 + mset g2 = mset (entries n)"
  shows "leafEntries (n\<lparr>entries := g1\<rparr>) + leafEntries \<lparr>is_leaf = is_leaf n, entries = g2\<rparr> = leafEntries n"
  using assms by (simp add: leafEntries_def)

lemma hasChild_level:
  assumes "treeShape lvl ns rt" "p < length ns" "hasChild i (ns ! p)"
  shows "\<not> is_leaf (ns ! p)" "Suc (lvl i) = lvl p" "i < length ns" "i \<noteq> rt" "i \<noteq> p"
proof -
  from assms(3) obtain e where e: "\<not> is_leaf (ns ! p)" "e \<in> set (entries (ns ! p))" "child_index e = i"
    by (auto simp: hasChild_iff)
  show "\<not> is_leaf (ns ! p)" by (rule e(1))
  show "Suc (lvl i) = lvl p" "i < length ns" "i \<noteq> rt" "i \<noteq> p"
    using treeShape_child[OF assms(1,2) e(1,2)] e(3) by simp_all
qed

subsection \<open>The arena after an inner split\<close>

lemma splitInner_length [simp]: "length (splitInnerNodes ns i p g1 g2) = Suc (length ns)"
  by (simp add: splitInnerNodes_def)

lemma splitInner_nth:
  assumes "i < length ns" "p < length ns" "p \<noteq> i"
  shows "splitInnerNodes ns i p g1 g2 ! length ns = \<lparr>is_leaf = is_leaf (ns ! i), entries = g2\<rparr>"
    "splitInnerNodes ns i p g1 g2 ! p =
       (ns ! p)\<lparr>entries := updateParentEntry i (mbr g1) (entries (ns ! p)) @ [childEntry (mbr g2) (length ns)]\<rparr>"
    "splitInnerNodes ns i p g1 g2 ! i = (ns ! i)\<lparr>entries := g1\<rparr>"
    "\<And>j. j < length ns \<Longrightarrow> j \<noteq> i \<Longrightarrow> j \<noteq> p \<Longrightarrow> splitInnerNodes ns i p g1 g2 ! j = ns ! j"
  using assms by (simp_all add: splitInnerNodes_def nth_append)

lemma splitInner_allChildren:
  assumes ts: "treeShape lvl ns rt" and i: "i < length ns" and p: "p < length ns" and pi: "p \<noteq> i"
    and hc: "hasChild i (ns ! p)" and g: "mset g1 + mset g2 = mset (entries (ns ! i))"
  shows "allChildren (splitInnerNodes ns i p g1 g2) = allChildren ns + {#length ns#}"
proof -
  let ?A = "(ns ! i)\<lparr>entries := g1\<rparr>"
  let ?B = "(ns ! p)\<lparr>entries := updateParentEntry i (mbr g1) (entries (ns ! p)) @ [childEntry (mbr g2) (length ns)]\<rparr>"
  let ?C = "\<lparr>is_leaf = is_leaf (ns ! i), entries = g2\<rparr> :: 'a Node"
  have nlp: "\<not> is_leaf (ns ! p)" using hc by (simp add: hasChild_iff)
  have cB: "childrenOf ?B = childrenOf (ns ! p) + {#length ns#}"
    using nlp by (simp add: childrenOf_def childEntry_def mkEntry_def)
  have cA: "childrenOf ?A + childrenOf ?C = childrenOf (ns ! i)"
    by (rule groups_childrenOf[OF g])
  have 1: "allChildren (ns[i := ?A]) + childrenOf (ns ! i) = allChildren ns + childrenOf ?A"
    by (rule allChildren_update[OF i])
  have "allChildren (ns[i := ?A, p := ?B]) + childrenOf (ns[i := ?A] ! p) = allChildren (ns[i := ?A]) + childrenOf ?B"
    by (rule allChildren_update) (simp add: p)
  then have 2: "allChildren (ns[i := ?A, p := ?B]) + childrenOf (ns ! p)
      = (allChildren (ns[i := ?A]) + {#length ns#}) + childrenOf (ns ! p)"
    using pi by (simp add: cB ac_simps)
  have X: "allChildren (ns[i := ?A, p := ?B]) = allChildren (ns[i := ?A]) + {#length ns#}"
    using 2 by (simp only: add_right_cancel)
  have "(allChildren (ns[i := ?A]) + childrenOf ?C) + childrenOf ?A
      = allChildren (ns[i := ?A]) + (childrenOf ?A + childrenOf ?C)"
    by (simp add: ac_simps)
  also have "\<dots> = allChildren (ns[i := ?A]) + childrenOf (ns ! i)"
    by (simp only: cA)
  also have "\<dots> = allChildren ns + childrenOf ?A"
    by (rule 1)
  finally have Y: "allChildren (ns[i := ?A]) + childrenOf ?C = allChildren ns"
    by (simp only: add_right_cancel)
  have "allChildren (splitInnerNodes ns i p g1 g2) = allChildren (ns[i := ?A, p := ?B]) + childrenOf ?C"
    by (simp add: splitInnerNodes_def allChildren_append allChildren_single)
  also have "\<dots> = (allChildren (ns[i := ?A]) + childrenOf ?C) + {#length ns#}"
    by (simp add: X ac_simps)
  finally show ?thesis by (simp only: Y)
qed

lemma splitInner_treeShape:
  assumes ts: "treeShape lvl ns rt" and i: "i < length ns" and p: "p < length ns" and pi: "p \<noteq> i"
    and hc: "hasChild i (ns ! p)" and g: "mset g1 + mset g2 = mset (entries (ns ! i))"
    and ne: "g1 \<noteq> []" "g2 \<noteq> []"
  shows "treeShape (lvl(length ns := lvl i)) (splitInnerNodes ns i p g1 g2) rt"
proof (rule treeShapeI)
  let ?N = "length ns"
  let ?ns' = "splitInnerNodes ns i p g1 g2"
  let ?lvl' = "lvl(?N := lvl i)"
  note nth = splitInner_nth[OF i p pi, where ?g1.0 = g1 and ?g2.0 = g2]
  note sub = groups_subset[OF g]
  note hl = hasChild_level[OF ts p hc]
  have rt: "rt < ?N" by (rule treeShape_root[OF ts])
  show "rt < length ?ns'" using rt by simp
  show "allChildren ?ns' + {#rt#} = mset [0..<length ?ns']"
    using treeShape_children[OF ts]
    by (simp only: splitInner_allChildren[OF ts i p pi hc g] splitInner_length mset_upt_Suc)
       (simp add: ac_simps)
  have lvl_old: "\<And>j. j < ?N \<Longrightarrow> ?lvl' j = lvl j" by simp
  have lvl_rt: "?lvl' rt = lvl rt" using rt by simp
  have child_old: "\<And>j e. j < ?N \<Longrightarrow> \<not> is_leaf (ns ! j) \<Longrightarrow> e \<in> set (entries (ns ! j))
      \<Longrightarrow> Suc (?lvl' (child_index e)) = lvl j"
    using treeShape_child(1,2)[OF ts] by (metis lvl_old)
  show "\<And>j. j < length ?ns' \<Longrightarrow> ?lvl' j \<le> ?lvl' rt"
    using treeShape_level_le[OF ts] i rt by (auto simp: less_Suc_eq)
  show "\<And>j. j < length ?ns' \<Longrightarrow> is_leaf (?ns' ! j) \<longleftrightarrow> ?lvl' j = 0"
  proof -
    fix j assume "j < length ?ns'"
    then consider "j = ?N" | "j = p" | "j = i" | "j < ?N" "j \<noteq> i" "j \<noteq> p"
      by (auto simp: less_Suc_eq)
    then show "is_leaf (?ns' ! j) \<longleftrightarrow> ?lvl' j = 0"
    proof cases
      case 1
      then show ?thesis using treeShape_leaf[OF ts i] by (simp add: nth(1))
    next
      case 2
      then show ?thesis using treeShape_leaf[OF ts p] p by (simp add: nth(2))
    next
      case 3
      then show ?thesis using treeShape_leaf[OF ts i] i by (simp add: nth(3))
    next
      case 4
      then show ?thesis using treeShape_leaf[OF ts 4(1)] by (simp add: nth(4))
    qed
  qed
  show "\<And>j. j < length ?ns' \<Longrightarrow> \<not> is_leaf (?ns' ! j) \<Longrightarrow> entries (?ns' ! j) \<noteq> []"
  proof -
    fix j assume "j < length ?ns'" and nl: "\<not> is_leaf (?ns' ! j)"
    then consider "j = ?N" | "j = p" | "j = i" | "j < ?N" "j \<noteq> i" "j \<noteq> p"
      by (auto simp: less_Suc_eq)
    then show "entries (?ns' ! j) \<noteq> []"
    proof cases
      case 1
      then show ?thesis using ne by (simp add: nth(1))
    next
      case 2
      then show ?thesis by (simp add: nth(2))
    next
      case 3
      then show ?thesis using ne by (simp add: nth(3))
    next
      case 4
      then show ?thesis using treeShape_entries[OF ts 4(1)] nl by (simp add: nth(4))
    qed
  qed
  show "\<And>j e. j < length ?ns' \<Longrightarrow> \<not> is_leaf (?ns' ! j) \<Longrightarrow> e \<in> set (entries (?ns' ! j))
      \<Longrightarrow> Suc (?lvl' (child_index e)) = ?lvl' j"
  proof -
    fix j e assume "j < length ?ns'" and nl: "\<not> is_leaf (?ns' ! j)" and e: "e \<in> set (entries (?ns' ! j))"
    then consider "j = ?N" | "j = p" | "j = i" | "j < ?N" "j \<noteq> i" "j \<noteq> p"
      by (auto simp: less_Suc_eq)
    then show "Suc (?lvl' (child_index e)) = ?lvl' j"
    proof cases
      case 1
      with nl e have "\<not> is_leaf (ns ! i)" "e \<in> set (entries (ns ! i))"
        using sub(2) by (auto simp: nth(1))
      from child_old[OF i this] 1 show ?thesis by simp
    next
      case 2
      with nl have nlp: "\<not> is_leaf (ns ! p)" by (simp add: nth(2))
      from e 2 have "e \<in> set (updateParentEntry i (mbr g1) (entries (ns ! p))) \<or> e = childEntry (mbr g2) ?N"
        by (auto simp: nth(2))
      then show ?thesis
      proof
        assume "e \<in> set (updateParentEntry i (mbr g1) (entries (ns ! p)))"
        then obtain e0 where "e0 \<in> set (entries (ns ! p))" "child_index e0 = child_index e"
          using set_updateParentEntry by fastforce
        with child_old[OF p nlp, of e0] 2 p show ?thesis by simp
      next
        assume "e = childEntry (mbr g2) ?N"
        then show ?thesis using hl(2) 2 p by (simp add: childEntry_def)
      qed
    next
      case 3
      with nl e have "\<not> is_leaf (ns ! i)" "e \<in> set (entries (ns ! i))"
        using sub(1) by (auto simp: nth(3))
      from child_old[OF i this] 3 i show ?thesis by simp
    next
      case 4
      with nl e have "\<not> is_leaf (ns ! j)" "e \<in> set (entries (ns ! j))"
        by (simp_all add: nth(4))
      from child_old[OF 4(1) this] 4(1) show ?thesis by simp
    qed
  qed
qed

lemma splitInner_leafEntries:
  assumes i: "i < length ns" and p: "p < length ns" and pi: "p \<noteq> i"
    and nlp: "\<not> is_leaf (ns ! p)" and g: "mset g1 + mset g2 = mset (entries (ns ! i))"
  shows "allLeafEntries (splitInnerNodes ns i p g1 g2) = allLeafEntries ns"
proof -
  let ?A = "(ns ! i)\<lparr>entries := g1\<rparr>"
  let ?B = "(ns ! p)\<lparr>entries := updateParentEntry i (mbr g1) (entries (ns ! p)) @ [childEntry (mbr g2) (length ns)]\<rparr>"
  let ?C = "\<lparr>is_leaf = is_leaf (ns ! i), entries = g2\<rparr> :: 'a Node"
  have lB: "leafEntries ?B = leafEntries (ns ! p)"
    using nlp by (simp add: leafEntries_def)
  have lA: "leafEntries ?A + leafEntries ?C = leafEntries (ns ! i)"
    by (rule groups_leafEntries[OF g])
  have 1: "allLeafEntries (ns[i := ?A]) + leafEntries (ns ! i) = allLeafEntries ns + leafEntries ?A"
    by (rule allLeafEntries_update[OF i])
  have "allLeafEntries (ns[i := ?A, p := ?B]) + leafEntries (ns[i := ?A] ! p)
      = allLeafEntries (ns[i := ?A]) + leafEntries ?B"
    by (rule allLeafEntries_update) (simp add: p)
  then have "allLeafEntries (ns[i := ?A, p := ?B]) + leafEntries (ns ! p)
      = allLeafEntries (ns[i := ?A]) + leafEntries (ns ! p)"
    using pi by (simp add: lB)
  then have X: "allLeafEntries (ns[i := ?A, p := ?B]) = allLeafEntries (ns[i := ?A])"
    by (simp only: add_right_cancel)
  have "(allLeafEntries (ns[i := ?A]) + leafEntries ?C) + leafEntries ?A
      = allLeafEntries (ns[i := ?A]) + (leafEntries ?A + leafEntries ?C)"
    by (simp add: ac_simps)
  also have "\<dots> = allLeafEntries (ns[i := ?A]) + leafEntries (ns ! i)"
    by (simp only: lA)
  also have "\<dots> = allLeafEntries ns + leafEntries ?A"
    by (rule 1)
  finally have Y: "allLeafEntries (ns[i := ?A]) + leafEntries ?C = allLeafEntries ns"
    by (simp only: add_right_cancel)
  have "allLeafEntries (splitInnerNodes ns i p g1 g2) = allLeafEntries (ns[i := ?A, p := ?B]) + leafEntries ?C"
    by (simp add: splitInnerNodes_def allLeafEntries_append allLeafEntries_single)
  then show ?thesis by (simp only: X Y)
qed

lemma dataOk_nth: "dataOk ns \<longleftrightarrow> (\<forall>j<length ns. is_leaf (ns ! j) \<longrightarrow> (\<forall>e\<in>set (entries (ns ! j)). data e \<noteq> None))"
  unfolding dataOk_def by (metis in_set_conv_nth)

lemma splitInner_dataOk:
  assumes dO: "dataOk ns" and i: "i < length ns" and p: "p < length ns" and pi: "p \<noteq> i"
    and nlp: "\<not> is_leaf (ns ! p)" and g: "mset g1 + mset g2 = mset (entries (ns ! i))"
  shows "dataOk (splitInnerNodes ns i p g1 g2)"
  unfolding dataOk_nth
proof (intro allI impI ballI)
  let ?N = "length ns"
  let ?ns' = "splitInnerNodes ns i p g1 g2"
  note nth = splitInner_nth[OF i p pi, where ?g1.0 = g1 and ?g2.0 = g2]
  note sub = groups_subset[OF g]
  fix j e assume "j < length ?ns'" and l: "is_leaf (?ns' ! j)" and e: "e \<in> set (entries (?ns' ! j))"
  then consider "j = ?N" | "j = p" | "j = i" | "j < ?N" "j \<noteq> i" "j \<noteq> p"
    by (auto simp: less_Suc_eq)
  then show "data e \<noteq> None"
  proof cases
    case 1
    with l e sub(2) have "is_leaf (ns ! i)" "e \<in> set (entries (ns ! i))" by (auto simp: nth(1))
    with dO i show ?thesis by (simp add: dataOk_nth)
  next
    case 2
    with l nlp show ?thesis by (simp add: nth(2))
  next
    case 3
    with l e sub(1) have "is_leaf (ns ! i)" "e \<in> set (entries (ns ! i))" by (auto simp: nth(3))
    with dO i show ?thesis by (simp add: dataOk_nth)
  next
    case 4
    with l e have "is_leaf (ns ! j)" "e \<in> set (entries (ns ! j))" by (simp_all add: nth(4))
    with dO 4(1) show ?thesis by (simp add: dataOk_nth)
  qed
qed

lemma splitInner_boxesOk:
  assumes ts: "treeShape lvl ns rt" and bo: "boxesOk ns"
    and i: "i < length ns" and p: "p < length ns" and pi: "p \<noteq> i"
    and hc: "hasChild i (ns ! p)" and g: "mset g1 + mset g2 = mset (entries (ns ! i))"
    and ne: "g1 \<noteq> []" "g2 \<noteq> []"
  shows "boxesOk (splitInnerNodes ns i p g1 g2)"
proof -
  let ?N = "length ns"
  let ?ns' = "splitInnerNodes ns i p g1 g2"
  let ?es = "entries (ns ! i)" and ?ep = "entries (ns ! p)"
  note nth = splitInner_nth[OF i p pi, where ?g1.0 = g1 and ?g2.0 = g2]
  note sub = groups_subset[OF g]
  note hl = hasChild_level[OF ts p hc]
  obtain ei where ei: "ei \<in> set ?ep" "child_index ei = i"
    using hc by (auto simp: hasChild_iff)
  have via_parent: "covers c (mbr g1) \<and> covers c (mbr g2)"
    if "e0 \<in> set ?ep" "child_index e0 = i" "covers c (bounding_box e0)" for c e0
  proof -
    have "\<forall>x\<in>set ?es. covers (bounding_box e0) (bounding_box x)"
      using boxesOkD[OF bo p hl(1) that(1)] that(2) by simp
    then have "\<forall>x\<in>set ?es. covers c (bounding_box x)"
      using that(3) by (blast intro: covers_trans)
    then show ?thesis using sub ne by (auto intro!: mbr_least)
  qed
  have old_cover: "covers (bounding_box e) (bounding_box e')"
    if j: "j < ?N" "\<not> is_leaf (ns ! j)" and e: "e \<in> set (entries (ns ! j))"
      and e': "e' \<in> set (entries (?ns' ! child_index e))" for j e e'
  proof -
    note old = boxesOkD[OF bo j e]
    have k: "child_index e < ?N" by (rule treeShape_child(1)[OF ts j e])
    consider "child_index e = i" | "child_index e = p" | "child_index e \<noteq> i" "child_index e \<noteq> p"
      by blast
    then show ?thesis
    proof cases
      case 1
      with e' sub(1) have "e' \<in> set (entries (ns ! child_index e))" by (auto simp: nth(3))
      then show ?thesis by (rule old)
    next
      case 2
      with e' have "e' \<in> set (updateParentEntry i (mbr g1) ?ep) \<or> e' = childEntry (mbr g2) ?N"
        by (auto simp: nth(2))
      then consider "e' \<in> set ?ep" | e0 where "e0 \<in> set ?ep" "child_index e0 = i" "e' = e0\<lparr>bounding_box := mbr g1\<rparr>"
        | "e' = childEntry (mbr g2) ?N"
        using set_updateParentEntry by blast
      then show ?thesis
      proof cases
        case 1
        then show ?thesis using old 2 by simp
      next
        case (2 e0)
        have "covers (bounding_box e) (bounding_box e0)"
          using old 2(1) \<open>child_index e = p\<close> by simp
        from via_parent[OF 2(1,2) this] 2(3) show ?thesis by simp
      next
        case 3
        have "covers (bounding_box e) (bounding_box ei)"
          using old ei(1) \<open>child_index e = p\<close> by simp
        from via_parent[OF ei this] 3 show ?thesis by (simp add: childEntry_def mkEntry_def)
      qed
    next
      case 3
      with e' k have "e' \<in> set (entries (ns ! child_index e))" by (simp add: nth(4))
      then show ?thesis by (rule old)
    qed
  qed
  show ?thesis
    unfolding boxesOk_def
  proof (intro allI impI ballI)
    fix j e e'
    assume "j < length ?ns'" and nl: "\<not> is_leaf (?ns' ! j)" and e: "e \<in> set (entries (?ns' ! j))"
      and e': "e' \<in> set (entries (?ns' ! child_index e))"
    then consider "j = ?N" | "j = p" | "j = i" | "j < ?N" "j \<noteq> i" "j \<noteq> p"
      by (auto simp: less_Suc_eq)
    then show "covers (bounding_box e) (bounding_box e')"
    proof cases
      case 1
      with nl e sub(2) have "\<not> is_leaf (ns ! i)" "e \<in> set ?es" by (auto simp: nth(1))
      then show ?thesis using e' by (rule old_cover[OF i])
    next
      case 2
      from e 2 have "e \<in> set (updateParentEntry i (mbr g1) ?ep) \<or> e = childEntry (mbr g2) ?N"
        by (auto simp: nth(2))
      then consider "e \<in> set ?ep" | e0 where "e0 \<in> set ?ep" "child_index e0 = i" "e = e0\<lparr>bounding_box := mbr g1\<rparr>"
        | "e = childEntry (mbr g2) ?N"
        using set_updateParentEntry by blast
      then show ?thesis
      proof cases
        case 1
        then show ?thesis using e' by (rule old_cover[OF p hl(1)])
      next
        case (2 e0)
        with e' have "e' \<in> set g1" by (simp add: nth(3))
        then show ?thesis using 2(3) by (simp add: mbr_covers)
      next
        case 3
        with e' have "e' \<in> set g2" by (simp add: nth(1) childEntry_def)
        then show ?thesis using 3 by (simp add: mbr_covers childEntry_def mkEntry_def)
      qed
    next
      case 3
      with nl e sub(1) have "\<not> is_leaf (ns ! i)" "e \<in> set ?es" by (auto simp: nth(3))
      then show ?thesis using e' by (rule old_cover[OF i])
    next
      case 4
      with nl e have "\<not> is_leaf (ns ! j)" "e \<in> set (entries (ns ! j))" by (simp_all add: nth(4))
      then show ?thesis using e' by (rule old_cover[OF 4(1)])
    qed
  qed
qed

subsection \<open>The arena after a split of the root\<close>

lemma splitRoot_length [simp]: "length (splitRootNodes ns i g1 g2) = Suc (Suc (length ns))"
  by (simp add: splitRootNodes_def)

lemma splitRoot_nth:
  assumes "i < length ns"
  shows "splitRootNodes ns i g1 g2 ! Suc (length ns) = \<lparr>is_leaf = is_leaf (ns ! i), entries = g2\<rparr>"
    "splitRootNodes ns i g1 g2 ! length ns =
       \<lparr>is_leaf = False, entries = [childEntry (mbr g1) i, childEntry (mbr g2) (Suc (length ns))]\<rparr>"
    "splitRootNodes ns i g1 g2 ! i = (ns ! i)\<lparr>entries := g1\<rparr>"
    "\<And>j. j < length ns \<Longrightarrow> j \<noteq> i \<Longrightarrow> splitRootNodes ns i g1 g2 ! j = ns ! j"
  using assms by (simp_all add: splitRootNodes_def nth_append)

lemma splitRoot_allChildren:
  assumes i: "i < length ns" and g: "mset g1 + mset g2 = mset (entries (ns ! i))"
  shows "allChildren (splitRootNodes ns i g1 g2) = allChildren ns + {#i, Suc (length ns)#}"
proof -
  let ?A = "(ns ! i)\<lparr>entries := g1\<rparr>"
  let ?R = "\<lparr>is_leaf = False, entries = [childEntry (mbr g1) i, childEntry (mbr g2) (Suc (length ns))]\<rparr> :: 'a Node"
  let ?C = "\<lparr>is_leaf = is_leaf (ns ! i), entries = g2\<rparr> :: 'a Node"
  have cR: "childrenOf ?R = {#i, Suc (length ns)#}"
    by (simp add: childrenOf_def childEntry_def mkEntry_def)
  have cA: "childrenOf ?A + childrenOf ?C = childrenOf (ns ! i)"
    by (rule groups_childrenOf[OF g])
  have 1: "allChildren (ns[i := ?A]) + childrenOf (ns ! i) = allChildren ns + childrenOf ?A"
    by (rule allChildren_update[OF i])
  have "(allChildren (ns[i := ?A]) + childrenOf ?C) + childrenOf ?A
      = allChildren (ns[i := ?A]) + (childrenOf ?A + childrenOf ?C)"
    by (simp add: ac_simps)
  also have "\<dots> = allChildren (ns[i := ?A]) + childrenOf (ns ! i)"
    by (simp only: cA)
  also have "\<dots> = allChildren ns + childrenOf ?A"
    by (rule 1)
  finally have Y: "allChildren (ns[i := ?A]) + childrenOf ?C = allChildren ns"
    by (simp only: add_right_cancel)
  have "allChildren (splitRootNodes ns i g1 g2) = (allChildren (ns[i := ?A]) + childrenOf ?C) + childrenOf ?R"
    by (simp add: splitRootNodes_def allChildren_append allChildren_def)
  then show ?thesis by (simp only: Y cR)
qed

lemma splitRoot_leafEntries:
  assumes i: "i < length ns" and g: "mset g1 + mset g2 = mset (entries (ns ! i))"
  shows "allLeafEntries (splitRootNodes ns i g1 g2) = allLeafEntries ns"
proof -
  let ?A = "(ns ! i)\<lparr>entries := g1\<rparr>"
  let ?R = "\<lparr>is_leaf = False, entries = [childEntry (mbr g1) i, childEntry (mbr g2) (Suc (length ns))]\<rparr> :: 'a Node"
  let ?C = "\<lparr>is_leaf = is_leaf (ns ! i), entries = g2\<rparr> :: 'a Node"
  have lR: "leafEntries ?R = {#}"
    by (simp add: leafEntries_def)
  have lA: "leafEntries ?A + leafEntries ?C = leafEntries (ns ! i)"
    by (rule groups_leafEntries[OF g])
  have 1: "allLeafEntries (ns[i := ?A]) + leafEntries (ns ! i) = allLeafEntries ns + leafEntries ?A"
    by (rule allLeafEntries_update[OF i])
  have "(allLeafEntries (ns[i := ?A]) + leafEntries ?C) + leafEntries ?A
      = allLeafEntries (ns[i := ?A]) + (leafEntries ?A + leafEntries ?C)"
    by (simp add: ac_simps)
  also have "\<dots> = allLeafEntries (ns[i := ?A]) + leafEntries (ns ! i)"
    by (simp only: lA)
  also have "\<dots> = allLeafEntries ns + leafEntries ?A"
    by (rule 1)
  finally have Y: "allLeafEntries (ns[i := ?A]) + leafEntries ?C = allLeafEntries ns"
    by (simp only: add_right_cancel)
  have "allLeafEntries (splitRootNodes ns i g1 g2) = (allLeafEntries (ns[i := ?A]) + leafEntries ?C) + leafEntries ?R"
    by (simp add: splitRootNodes_def allLeafEntries_append allLeafEntries_def)
  then show ?thesis by (simp only: Y lR) simp
qed

lemma splitRoot_treeShape:
  assumes ts: "treeShape lvl ns i" and g: "mset g1 + mset g2 = mset (entries (ns ! i))"
    and ne: "g1 \<noteq> []" "g2 \<noteq> []"
  shows "treeShape (lvl(length ns := Suc (lvl i), Suc (length ns) := lvl i)) (splitRootNodes ns i g1 g2)
           (length ns)"
proof (rule treeShapeI)
  let ?N = "length ns"
  let ?ns' = "splitRootNodes ns i g1 g2"
  let ?lvl' = "lvl(?N := Suc (lvl i), Suc ?N := lvl i)"
  have i: "i < ?N" by (rule treeShape_root[OF ts])
  note nth = splitRoot_nth[OF i, where ?g1.0 = g1 and ?g2.0 = g2]
  note sub = groups_subset[OF g]
  show "?N < length ?ns'" by simp
  have "allChildren ?ns' + {#?N#} = (allChildren ns + {#i#}) + {#?N#} + {#Suc ?N#}"
    by (simp add: splitRoot_allChildren[OF i g])
  also have "\<dots> = mset [0..<Suc (Suc ?N)]"
    by (simp only: treeShape_children[OF ts] mset_upt_Suc)
  finally show "allChildren ?ns' + {#?N#} = mset [0..<length ?ns']"
    by (simp only: splitRoot_length)
  have lvl_old: "\<And>j. j < ?N \<Longrightarrow> ?lvl' j = lvl j" by simp
  have child_old: "\<And>j e. j < ?N \<Longrightarrow> \<not> is_leaf (ns ! j) \<Longrightarrow> e \<in> set (entries (ns ! j))
      \<Longrightarrow> Suc (?lvl' (child_index e)) = lvl j"
    using treeShape_child(1,2)[OF ts] by (metis lvl_old)
  show "\<And>j. j < length ?ns' \<Longrightarrow> ?lvl' j \<le> ?lvl' ?N"
    using treeShape_level_le[OF ts] by (auto simp: less_Suc_eq le_Suc_eq)
  show "\<And>j. j < length ?ns' \<Longrightarrow> is_leaf (?ns' ! j) \<longleftrightarrow> ?lvl' j = 0"
  proof -
    fix j assume "j < length ?ns'"
    then consider "j = Suc ?N" | "j = ?N" | "j = i" | "j < ?N" "j \<noteq> i"
      by (auto simp: less_Suc_eq)
    then show "is_leaf (?ns' ! j) \<longleftrightarrow> ?lvl' j = 0"
    proof cases
      case 1
      then show ?thesis using treeShape_leaf[OF ts i] by (simp add: nth(1))
    next
      case 2
      then show ?thesis by (simp add: nth(2))
    next
      case 3
      then show ?thesis using treeShape_leaf[OF ts i] i by (simp add: nth(3))
    next
      case 4
      then show ?thesis using treeShape_leaf[OF ts 4(1)] by (simp add: nth(4))
    qed
  qed
  show "\<And>j. j < length ?ns' \<Longrightarrow> \<not> is_leaf (?ns' ! j) \<Longrightarrow> entries (?ns' ! j) \<noteq> []"
  proof -
    fix j assume "j < length ?ns'" and nl: "\<not> is_leaf (?ns' ! j)"
    then consider "j = Suc ?N" | "j = ?N" | "j = i" | "j < ?N" "j \<noteq> i"
      by (auto simp: less_Suc_eq)
    then show "entries (?ns' ! j) \<noteq> []"
    proof cases
      case 1
      then show ?thesis using ne by (simp add: nth(1))
    next
      case 2
      then show ?thesis by (simp add: nth(2))
    next
      case 3
      then show ?thesis using ne by (simp add: nth(3))
    next
      case 4
      then show ?thesis using treeShape_entries[OF ts 4(1)] nl by (simp add: nth(4))
    qed
  qed
  show "\<And>j e. j < length ?ns' \<Longrightarrow> \<not> is_leaf (?ns' ! j) \<Longrightarrow> e \<in> set (entries (?ns' ! j))
      \<Longrightarrow> Suc (?lvl' (child_index e)) = ?lvl' j"
  proof -
    fix j e assume "j < length ?ns'" and nl: "\<not> is_leaf (?ns' ! j)" and e: "e \<in> set (entries (?ns' ! j))"
    then consider "j = Suc ?N" | "j = ?N" | "j = i" | "j < ?N" "j \<noteq> i"
      by (auto simp: less_Suc_eq)
    then show "Suc (?lvl' (child_index e)) = ?lvl' j"
    proof cases
      case 1
      with nl e have "\<not> is_leaf (ns ! i)" "e \<in> set (entries (ns ! i))"
        using sub(2) by (auto simp: nth(1))
      from child_old[OF i this] 1 show ?thesis by simp
    next
      case 2
      with e have "e = childEntry (mbr g1) i \<or> e = childEntry (mbr g2) (Suc ?N)"
        by (simp add: nth(2))
      then show ?thesis using 2 i by (auto simp: childEntry_def)
    next
      case 3
      with nl e have "\<not> is_leaf (ns ! i)" "e \<in> set (entries (ns ! i))"
        using sub(1) by (auto simp: nth(3))
      from child_old[OF i this] 3 i show ?thesis by simp
    next
      case 4
      with nl e have "\<not> is_leaf (ns ! j)" "e \<in> set (entries (ns ! j))"
        by (simp_all add: nth(4))
      from child_old[OF 4(1) this] 4(1) show ?thesis by simp
    qed
  qed
qed

lemma splitRoot_dataOk:
  assumes dO: "dataOk ns" and i: "i < length ns" and g: "mset g1 + mset g2 = mset (entries (ns ! i))"
  shows "dataOk (splitRootNodes ns i g1 g2)"
  unfolding dataOk_nth
proof (intro allI impI ballI)
  let ?N = "length ns"
  let ?ns' = "splitRootNodes ns i g1 g2"
  note nth = splitRoot_nth[OF i, where ?g1.0 = g1 and ?g2.0 = g2]
  note sub = groups_subset[OF g]
  fix j e assume "j < length ?ns'" and l: "is_leaf (?ns' ! j)" and e: "e \<in> set (entries (?ns' ! j))"
  then consider "j = Suc ?N" | "j = ?N" | "j = i" | "j < ?N" "j \<noteq> i"
    by (auto simp: less_Suc_eq)
  then show "data e \<noteq> None"
  proof cases
    case 1
    with l e sub(2) have "is_leaf (ns ! i)" "e \<in> set (entries (ns ! i))" by (auto simp: nth(1))
    with dO i show ?thesis by (simp add: dataOk_nth)
  next
    case 2
    with l show ?thesis by (simp add: nth(2))
  next
    case 3
    with l e sub(1) have "is_leaf (ns ! i)" "e \<in> set (entries (ns ! i))" by (auto simp: nth(3))
    with dO i show ?thesis by (simp add: dataOk_nth)
  next
    case 4
    with l e have "is_leaf (ns ! j)" "e \<in> set (entries (ns ! j))" by (simp_all add: nth(4))
    with dO 4(1) show ?thesis by (simp add: dataOk_nth)
  qed
qed

lemma splitRoot_boxesOk:
  assumes ts: "treeShape lvl ns i" and bo: "boxesOk ns"
    and g: "mset g1 + mset g2 = mset (entries (ns ! i))"
  shows "boxesOk (splitRootNodes ns i g1 g2)"
proof -
  let ?N = "length ns"
  let ?ns' = "splitRootNodes ns i g1 g2"
  let ?es = "entries (ns ! i)"
  have i: "i < ?N" by (rule treeShape_root[OF ts])
  note nth = splitRoot_nth[OF i, where ?g1.0 = g1 and ?g2.0 = g2]
  note sub = groups_subset[OF g]
  have old_cover: "covers (bounding_box e) (bounding_box e')"
    if j: "j < ?N" "\<not> is_leaf (ns ! j)" and e: "e \<in> set (entries (ns ! j))"
      and e': "e' \<in> set (entries (?ns' ! child_index e))" for j e e'
  proof -
    have k: "child_index e < ?N" "child_index e \<noteq> i"
      by (rule treeShape_child(1,3)[OF ts j e])+
    with e' have "e' \<in> set (entries (ns ! child_index e))" by (simp add: nth(4))
    then show ?thesis by (rule boxesOkD[OF bo j e])
  qed
  show ?thesis
    unfolding boxesOk_def
  proof (intro allI impI ballI)
    fix j e e'
    assume "j < length ?ns'" and nl: "\<not> is_leaf (?ns' ! j)" and e: "e \<in> set (entries (?ns' ! j))"
      and e': "e' \<in> set (entries (?ns' ! child_index e))"
    then consider "j = Suc ?N" | "j = ?N" | "j = i" | "j < ?N" "j \<noteq> i"
      by (auto simp: less_Suc_eq)
    then show "covers (bounding_box e) (bounding_box e')"
    proof cases
      case 1
      with nl e sub(2) have "\<not> is_leaf (ns ! i)" "e \<in> set ?es" by (auto simp: nth(1))
      then show ?thesis using e' by (rule old_cover[OF i])
    next
      case 2
      with e consider "e = childEntry (mbr g1) i" | "e = childEntry (mbr g2) (Suc ?N)"
        by (auto simp: nth(2))
      then show ?thesis
      proof cases
        case 1
        with e' have "e' \<in> set g1" by (simp add: nth(3) childEntry_def)
        then show ?thesis using 1 by (simp add: mbr_covers childEntry_def mkEntry_def)
      next
        case 2
        with e' have "e' \<in> set g2" by (simp add: nth(1) childEntry_def)
        then show ?thesis using 2 by (simp add: mbr_covers childEntry_def mkEntry_def)
      qed
    next
      case 3
      with nl e sub(1) have "\<not> is_leaf (ns ! i)" "e \<in> set ?es" by (auto simp: nth(3))
      then show ?thesis using e' by (rule old_cover[OF i])
    next
      case 4
      with nl e have "\<not> is_leaf (ns ! j)" "e \<in> set (entries (ns ! j))" by (simp_all add: nth(4))
      then show ?thesis using e' by (rule old_cover[OF 4(1)])
    qed
  qed
qed

subsection \<open>Appending to the chosen leaf\<close>

lemma append_leaf:
  fixes d :: 'd
  assumes ts: "treeShape lvl ns rt" and bo: "boxesOk ns" and dO: "dataOk ns"
    and l: "leaf < length ns" "is_leaf (ns ! leaf)" and pc: "pathCovers ns leaf rect"
  defines "ns' \<equiv> ns[leaf := (ns ! leaf)\<lparr>entries := entries (ns ! leaf) @ [mkEntry rect (Some d)]\<rparr>]"
  shows "treeShape lvl ns' rt" "boxesOk ns'" "dataOk ns'"
    "allLeafEntries ns' = allLeafEntries ns + {#mkEntry rect (Some d)#}"
proof -
  let ?L = "(ns ! leaf)\<lparr>entries := entries (ns ! leaf) @ [mkEntry rect (Some d)]\<rparr>"
  have nthL: "ns' ! leaf = ?L" and nthO: "\<And>j. j \<noteq> leaf \<Longrightarrow> ns' ! j = ns ! j"
    and len: "length ns' = length ns"
    using l(1) by (simp_all add: ns'_def)
  have leafsame: "\<And>j. j < length ns \<Longrightarrow> is_leaf (ns' ! j) = is_leaf (ns ! j)"
    using l by (simp add: ns'_def nth_list_update)
  have inner: "\<And>j. j < length ns \<Longrightarrow> \<not> is_leaf (ns ! j) \<Longrightarrow> ns' ! j = ns ! j"
    using l(2) nthO by metis
  have "allChildren ns' + childrenOf (ns ! leaf) = allChildren ns + childrenOf ?L"
    unfolding ns'_def by (rule allChildren_update[OF l(1)])
  then have ac: "allChildren ns' = allChildren ns"
    using l(2) by (simp add: childrenOf_def)
  show "treeShape lvl ns' rt"
  proof (rule treeShapeI)
    show "rt < length ns'" using treeShape_root[OF ts] len by simp
    show "allChildren ns' + {#rt#} = mset [0..<length ns']"
      using treeShape_children[OF ts] by (simp only: ac len)
    show "\<And>j. j < length ns' \<Longrightarrow> lvl j \<le> lvl rt"
      using treeShape_level_le[OF ts] len by simp
    show "\<And>j. j < length ns' \<Longrightarrow> is_leaf (ns' ! j) \<longleftrightarrow> lvl j = 0"
      using treeShape_leaf[OF ts] leafsame len by simp
    show "\<And>j. j < length ns' \<Longrightarrow> \<not> is_leaf (ns' ! j) \<Longrightarrow> entries (ns' ! j) \<noteq> []"
      using treeShape_entries[OF ts] leafsame inner len by simp
    show "\<And>j e. j < length ns' \<Longrightarrow> \<not> is_leaf (ns' ! j) \<Longrightarrow> e \<in> set (entries (ns' ! j))
        \<Longrightarrow> Suc (lvl (child_index e)) = lvl j"
      using treeShape_child(2)[OF ts] leafsame inner len by simp
  qed
  show "boxesOk ns'"
    unfolding boxesOk_def
  proof (intro allI impI ballI)
    fix j e e'
    assume "j < length ns'" and "\<not> is_leaf (ns' ! j)" and "e \<in> set (entries (ns' ! j))"
      and e': "e' \<in> set (entries (ns' ! child_index e))"
    then have j: "j < length ns" "\<not> is_leaf (ns ! j)" "e \<in> set (entries (ns ! j))"
      using leafsame inner len by simp_all
    show "covers (bounding_box e) (bounding_box e')"
    proof (cases "child_index e = leaf")
      case True
      with e' have "e' \<in> set (entries (ns ! child_index e)) \<or> e' = mkEntry rect (Some d)"
        by (auto simp: nthL)
      then show ?thesis
      proof
        assume "e' \<in> set (entries (ns ! child_index e))"
        then show ?thesis by (rule boxesOkD[OF bo j])
      next
        assume "e' = mkEntry rect (Some d)"
        then show ?thesis using pathCoversD[OF pc j True] by (simp add: mkEntry_def)
      qed
    next
      case False
      with e' have "e' \<in> set (entries (ns ! child_index e))" by (simp add: nthO)
      then show ?thesis by (rule boxesOkD[OF bo j])
    qed
  qed
  show "dataOk ns'"
    unfolding dataOk_nth
  proof (intro allI impI ballI)
    fix j e assume j: "j < length ns'" "is_leaf (ns' ! j)" and e: "e \<in> set (entries (ns' ! j))"
    show "data e \<noteq> None"
    proof (cases "j = leaf")
      case True
      with e have "e \<in> set (entries (ns ! leaf)) \<or> e = mkEntry rect (Some d)" by (auto simp: nthL)
      then show ?thesis using dO l by (auto simp: dataOk_nth mkEntry_def)
    next
      case False
      with j e len have "j < length ns" "is_leaf (ns ! j)" "e \<in> set (entries (ns ! j))"
        by (simp_all add: nthO)
      with dO show ?thesis by (simp add: dataOk_nth)
    qed
  qed
  have "allLeafEntries ns' + leafEntries (ns ! leaf) = allLeafEntries ns + leafEntries ?L"
    unfolding ns'_def by (rule allLeafEntries_update[OF l(1)])
  also have "leafEntries ?L = leafEntries (ns ! leaf) + {#mkEntry rect (Some d)#}"
    using l(2) by (simp add: leafEntries_def)
  finally have "allLeafEntries ns' + leafEntries (ns ! leaf)
      = (allLeafEntries ns + {#mkEntry rect (Some d)#}) + leafEntries (ns ! leaf)"
    by (simp add: ac_simps)
  then show "allLeafEntries ns' = allLeafEntries ns + {#mkEntry rect (Some d)#}"
    by (simp only: add_right_cancel)
qed

subsection \<open>splitNode keeps the tree well formed\<close>

lemma splitNode_step:
  assumes wf: "wellFormed lvl t" and i: "i < length (nodes t)"
    and two: "2 \<le> length (entries (nodes t ! i))"
  shows "(i = root_index t \<and>
          (\<exists>t' lvl'. (\<forall>fuel. splitNode (Suc fuel) t i = Some (Inr t')) \<and> wellFormed lvl' t'
             \<and> allLeafEntries (nodes t') = allLeafEntries (nodes t)
             \<and> length (nodes t) < length (nodes t')))
       \<or> (i \<noteq> root_index t \<and>
          (\<exists>p t'. p < length (nodes t') \<and> Suc (lvl i) = lvl p \<and> lvl p \<le> lvl (root_index t)
             \<and> (\<forall>fuel. splitNode (Suc fuel) t i =
                   (if length (entries (nodes t' ! p)) > MAX_ENTRIES then splitNode fuel t' p
                    else Some (Inr t')))
             \<and> wellFormed (lvl(length (nodes t) := lvl i)) t'
             \<and> allLeafEntries (nodes t') = allLeafEntries (nodes t)
             \<and> root_index t' = root_index t \<and> p < length (nodes t)
             \<and> 2 \<le> length (entries (nodes t' ! p))
             \<and> length (nodes t) < length (nodes t')))"
proof -
  let ?ns = "nodes t" and ?rt = "root_index t"
  from wf have ts: "treeShape lvl ?ns ?rt" and bo: "boxesOk ?ns" and dO: "dataOk ?ns"
    by (simp_all add: wellFormed_def)
  obtain g1 g2 where sg: "splitGroups (entries (?ns ! i)) = Inr (g1, g2)"
    and ne: "g1 \<noteq> []" "g2 \<noteq> []" and g: "mset g1 + mset g2 = mset (entries (?ns ! i))"
    using splitGroups_ok[OF two] by blast
  show ?thesis
  proof (cases "i = ?rt")
    case True
    let ?t' = "\<lparr>nodes = splitRootNodes ?ns i g1 g2, root_index = length ?ns\<rparr>"
    have "\<forall>fuel. splitNode (Suc fuel) t i = Some (Inr ?t')"
      using splitNode_root[OF i sg True] by simp
    moreover have "wellFormed (lvl(length ?ns := Suc (lvl i), Suc (length ?ns) := lvl i)) ?t'"
      using splitRoot_treeShape[OF ts[folded True] g ne] splitRoot_boxesOk[OF ts[folded True] bo g]
        splitRoot_dataOk[OF dO i g]
      by (simp add: wellFormed_def)
    moreover have "allLeafEntries (nodes ?t') = allLeafEntries ?ns"
      using splitRoot_leafEntries[OF i g] by simp
    moreover have "length ?ns < length (nodes ?t')" by simp
    ultimately show ?thesis using True by blast
  next
    case False
    obtain p where fp: "findParent (?ns[i := (?ns ! i)\<lparr>entries := g1\<rparr>]) i = Inr p"
      and p: "p < length ?ns" and pi: "p \<noteq> i" and hc: "hasChild i (?ns ! p)"
      using findParent_split[OF ts i False groups_subset(1)[OF g]] by blast
    note hl = hasChild_level[OF ts p hc]
    let ?t' = "\<lparr>nodes = splitInnerNodes ?ns i p g1 g2, root_index = ?rt\<rparr>"
    note nth = splitInner_nth[OF i p pi, where ?g1.0 = g1 and ?g2.0 = g2]
    have lenp: "length (entries (nodes ?t' ! p)) = length (entries (?ns ! p)) + 1"
      by (simp add: nth(2))
    have "\<forall>fuel. splitNode (Suc fuel) t i =
        (if length (entries (nodes ?t' ! p)) > MAX_ENTRIES then splitNode fuel ?t' p else Some (Inr ?t'))"
      using splitNode_inner[OF i sg False fp p pi] by (simp only: lenp) simp
    moreover have "wellFormed (lvl(length ?ns := lvl i)) ?t'"
      using splitInner_treeShape[OF ts i p pi hc g ne] splitInner_boxesOk[OF ts bo i p pi hc g ne]
        splitInner_dataOk[OF dO i p pi hl(1) g]
      by (simp add: wellFormed_def)
    moreover have "allLeafEntries (nodes ?t') = allLeafEntries ?ns"
      using splitInner_leafEntries[OF i p pi hl(1) g] by simp
    moreover have "2 \<le> length (entries (nodes ?t' ! p))"
      using treeShape_entries[OF ts p hl(1)] lenp by (cases "entries (?ns ! p)") simp_all
    moreover have "lvl p \<le> lvl ?rt" by (rule treeShape_level_le[OF ts p])
    moreover have "p < length (nodes ?t')" using p by simp
    moreover have "length ?ns < length (nodes ?t')" by simp
    ultimately show ?thesis using False hl(2) p
      by (intro disjI2 conjI exI[of _ p] exI[of _ ?t']) simp_all
  qed
qed

lemma splitNode_sound:
  "wellFormed lvl t \<Longrightarrow> i < length (nodes t) \<Longrightarrow> 2 \<le> length (entries (nodes t ! i))
   \<Longrightarrow> splitNode fuel t i = Some res
   \<Longrightarrow> \<exists>t' lvl'. res = Inr t' \<and> wellFormed lvl' t' \<and> allLeafEntries (nodes t') = allLeafEntries (nodes t)
         \<and> length (nodes t) < length (nodes t')"
proof (induction fuel arbitrary: lvl t i)
  case 0
  then show ?case by simp
next
  case (Suc fuel)
  from splitNode_step[OF Suc.prems(1,2,3)] show ?case
  proof (elim disjE conjE exE)
    fix t' lvl'
    assume "\<forall>fuel. splitNode (Suc fuel) t i = Some (Inr t')" "wellFormed lvl' t'"
      "allLeafEntries (nodes t') = allLeafEntries (nodes t)" "length (nodes t) < length (nodes t')"
    with Suc.prems(4) show ?thesis by auto
  next
    fix p t'
    assume p: "p < length (nodes t')" "2 \<le> length (entries (nodes t' ! p))"
      and run: "\<forall>fuel. splitNode (Suc fuel) t i =
                   (if length (entries (nodes t' ! p)) > MAX_ENTRIES then splitNode fuel t' p
                    else Some (Inr t'))"
      and wf': "wellFormed (lvl(length (nodes t) := lvl i)) t'"
      and le: "allLeafEntries (nodes t') = allLeafEntries (nodes t)"
      and gt: "length (nodes t) < length (nodes t')"
    show ?thesis
    proof (cases "length (entries (nodes t' ! p)) > MAX_ENTRIES")
      case True
      with run Suc.prems(4) have "splitNode fuel t' p = Some res" by simp
      from Suc.IH[OF wf' p this] le gt show ?thesis by force
    next
      case False
      with run Suc.prems(4) have "res = Inr t'" by simp
      with wf' le gt show ?thesis by blast
    qed
  qed
qed

lemma splitNode_total:
  "wellFormed lvl t \<Longrightarrow> i < length (nodes t) \<Longrightarrow> 2 \<le> length (entries (nodes t ! i))
   \<Longrightarrow> lvl (root_index t) - lvl i < fuel
   \<Longrightarrow> splitNode fuel t i \<noteq> None"
proof (induction fuel arbitrary: lvl t i)
  case 0
  then show ?case by simp
next
  case (Suc fuel)
  from splitNode_step[OF Suc.prems(1,2,3)] show ?case
  proof (elim disjE conjE exE)
    fix t' lvl'
    assume "\<forall>fuel. splitNode (Suc fuel) t i = Some (Inr t')"
    then show ?thesis by simp
  next
    fix p t'
    assume p: "p < length (nodes t')" "2 \<le> length (entries (nodes t' ! p))"
      and run: "\<forall>fuel. splitNode (Suc fuel) t i =
                   (if length (entries (nodes t' ! p)) > MAX_ENTRIES then splitNode fuel t' p
                    else Some (Inr t'))"
      and wf': "wellFormed (lvl(length (nodes t) := lvl i)) t'"
      and lv: "Suc (lvl i) = lvl p" "lvl p \<le> lvl (root_index t)"
      and rt: "root_index t' = root_index t" and pl: "p < length (nodes t)"
    have rl: "root_index t < length (nodes t)"
      using Suc.prems(1) by (simp add: wellFormed_def treeShape_def)
    let ?lvl' = "lvl(length (nodes t) := lvl i)"
    have "?lvl' (root_index t') - ?lvl' p < fuel"
      using lv Suc.prems(4) rt pl rl by simp
    from Suc.IH[OF wf' p this] run show ?thesis by simp
  qed
qed

subsection \<open>insert keeps the tree well formed\<close>

lemma pathCovers_root: "treeShape lvl ns rt \<Longrightarrow> pathCovers ns rt rect"
  unfolding pathCovers_def using treeShape_child(3) by blast

lemma insertRT_sound:
  assumes wf: "wellFormed lvl t" and run: "insertRT fuel rect d t = Some res"
  shows "\<exists>t' lvl'. res = Inr t' \<and> wellFormed lvl' t'
           \<and> allLeafEntries (nodes t') = allLeafEntries (nodes t) + {#mkEntry rect (Some d)#}
           \<and> (length (nodes t') = length (nodes t) \<longrightarrow>
                (\<exists>leaf ns1. grown (nodes t) ns1 \<and> leaf < length ns1 \<and> is_leaf (ns1 ! leaf)
                   \<and> nodes t' = ns1[leaf := (ns1 ! leaf)\<lparr>entries := entries (ns1 ! leaf) @ [mkEntry rect (Some d)]\<rparr>]))"
proof -
  let ?ns = "nodes t" and ?rt = "root_index t"
  from wf have ts: "treeShape lvl ?ns ?rt" and bo: "boxesOk ?ns" and dO: "dataOk ?ns"
    by (simp_all add: wellFormed_def)
  have rt: "?rt < length ?ns" by (rule treeShape_root[OF ts])
  from run obtain x where cl: "chooseLeaf fuel ?ns ?rt rect = Some x"
    by (auto simp: insertRT_def split: option.splits)
  with chooseLeaf_no_error[OF ts rt, of fuel rect] obtain leaf ns1
    where x: "x = Inr (leaf, ns1)"
    by (cases x) auto
  note cl = cl[unfolded x]
  from chooseLeaf_grown[OF cl] have gr: "grown ?ns ns1" and l: "leaf < length ?ns" "is_leaf (?ns ! leaf)"
    and same: "ns1 ! leaf = ?ns ! leaf"
    by simp_all
  have ts1: "treeShape lvl ns1 ?rt" by (rule treeShape_grown[OF ts gr])
  have dO1: "dataOk ns1" by (rule dataOk_grown[OF dO gr])
  from chooseLeaf_boxes[OF ts bo rt pathCovers_root[OF ts] cl]
  have bo1: "boxesOk ns1" and pc1: "pathCovers ns1 leaf rect" by simp_all
  have l1: "leaf < length ns1" "is_leaf (ns1 ! leaf)"
    using l same grown_length[OF gr] by simp_all
  let ?ns2 = "ns1[leaf := (ns1 ! leaf)\<lparr>entries := entries (ns1 ! leaf) @ [mkEntry rect (Some d)]\<rparr>]"
  let ?t2 = "\<lparr>nodes = ?ns2, root_index = ?rt\<rparr>"
  note ap = append_leaf[OF ts1 bo1 dO1 l1 pc1, where d = d]
  have wf2: "wellFormed lvl ?t2"
    using ap(1,2,3) by (simp add: wellFormed_def)
  have le2: "allLeafEntries (nodes ?t2) = allLeafEntries ?ns + {#mkEntry rect (Some d)#}"
    using ap(4) allLeafEntries_grown[OF gr] by simp
  have len2: "length (entries (?ns2 ! leaf)) = Suc (length (entries (ns1 ! leaf)))"
    using l1 by simp
  show ?thesis
  proof (cases "Suc (length (entries (ns1 ! leaf))) > MAX_ENTRIES")
    case True
    with run cl l1 have sp: "splitNode fuel ?t2 leaf = Some res"
      by (simp add: insertRT_def Let_def)
    have "leaf < length (nodes ?t2)" "2 \<le> length (entries (nodes ?t2 ! leaf))"
      using l1 True by (simp_all add: MAX_ENTRIES_def)
    from splitNode_sound[OF wf2 this sp] obtain t' lvl' where r: "res = Inr t'" "wellFormed lvl' t'"
        "allLeafEntries (nodes t') = allLeafEntries (nodes ?t2)" "length (nodes ?t2) < length (nodes t')"
      by blast
    have "length (nodes t') \<noteq> length (nodes t)"
      using r(4) grown_length[OF gr] by simp
    moreover have "allLeafEntries (nodes t') = allLeafEntries ?ns + {#mkEntry rect (Some d)#}"
      using r(3) le2 by simp
    ultimately show ?thesis using r(1,2) by blast
  next
    case False
    with run cl l1 have "res = Inr ?t2"
      by (simp add: insertRT_def Let_def)
    moreover have "\<exists>leaf' ns1'. grown ?ns ns1' \<and> leaf' < length ns1' \<and> is_leaf (ns1' ! leaf')
        \<and> nodes ?t2 = ns1'[leaf' := (ns1' ! leaf')\<lparr>entries := entries (ns1' ! leaf') @ [mkEntry rect (Some d)]\<rparr>]"
      using gr l1 by (intro exI[of _ leaf] exI[of _ ns1]) simp
    ultimately show ?thesis using wf2 le2 by blast
  qed
qed

lemma insertRT_total:
  assumes wf: "wellFormed lvl t" and fuel: "lvl (root_index t) < fuel"
  shows "insertRT fuel rect d t \<noteq> None"
proof -
  let ?ns = "nodes t" and ?rt = "root_index t"
  from wf have ts: "treeShape lvl ?ns ?rt" and bo: "boxesOk ?ns" and dO: "dataOk ?ns"
    by (simp_all add: wellFormed_def)
  have rt: "?rt < length ?ns" by (rule treeShape_root[OF ts])
  obtain leaf ns1 where cl: "chooseLeaf fuel ?ns ?rt rect = Some (Inr (leaf, ns1))"
    using chooseLeaf_total[OF ts rt fuel] by blast
  from chooseLeaf_grown[OF cl] have gr: "grown ?ns ns1" and l: "leaf < length ?ns" "is_leaf (?ns ! leaf)"
    and same: "ns1 ! leaf = ?ns ! leaf"
    by simp_all
  have ts1: "treeShape lvl ns1 ?rt" by (rule treeShape_grown[OF ts gr])
  have dO1: "dataOk ns1" by (rule dataOk_grown[OF dO gr])
  from chooseLeaf_boxes[OF ts bo rt pathCovers_root[OF ts] cl]
  have bo1: "boxesOk ns1" and pc1: "pathCovers ns1 leaf rect" by simp_all
  have l1: "leaf < length ns1" "is_leaf (ns1 ! leaf)"
    using l same grown_length[OF gr] by simp_all
  let ?ns2 = "ns1[leaf := (ns1 ! leaf)\<lparr>entries := entries (ns1 ! leaf) @ [mkEntry rect (Some d)]\<rparr>]"
  let ?t2 = "\<lparr>nodes = ?ns2, root_index = ?rt\<rparr>"
  note ap = append_leaf[OF ts1 bo1 dO1 l1 pc1, where d = d]
  have wf2: "wellFormed lvl ?t2"
    using ap(1,2,3) by (simp add: wellFormed_def)
  show ?thesis
  proof (cases "Suc (length (entries (ns1 ! leaf))) > MAX_ENTRIES")
    case True
    have "leaf < length (nodes ?t2)" "2 \<le> length (entries (nodes ?t2 ! leaf))"
      "lvl (root_index ?t2) - lvl leaf < fuel"
      using l1 True fuel by (simp_all add: MAX_ENTRIES_def)
    from splitNode_total[OF wf2 this] True cl l1 show ?thesis
      by (simp add: insertRT_def Let_def)
  next
    case False
    with cl l1 show ?thesis by (simp add: insertRT_def Let_def)
  qed
qed

subsection \<open>Every index built from the empty one is well formed\<close>

lemma newRTree_wellFormed: "wellFormed (\<lambda>_. 0) newRTree"
  by (simp add: wellFormed_def newRTree_def createNode_def mkNode_def treeShape_def boxesOk_def
      dataOk_def allChildren_def childrenOf_def del: mset_upt)

lemma built_wellFormed:
  "built ps t \<Longrightarrow> \<exists>lvl. wellFormed lvl t \<and> allLeafEntries (nodes t) = mset (map stored ps)"
proof (induction rule: built.induct)
  case built_new
  have "allLeafEntries (nodes (newRTree :: 'a RTree)) = {#}"
    by (simp add: newRTree_def createNode_def mkNode_def allLeafEntries_def leafEntries_def)
  with newRTree_wellFormed show ?case by (intro exI[of _ "\<lambda>_. 0"]) simp
next
  case (built_insert ps t fuel rect d t')
  then obtain lvl where wf: "wellFormed lvl t" and le: "allLeafEntries (nodes t) = mset (map stored ps)"
    by blast
  have st: "stored (rect, d) = mkEntry rect (Some d)" by (simp add: stored_def)
  from insertRT_sound[OF wf built_insert.hyps(2)] le show ?case
    by (auto simp: st)
qed

subsection \<open>The rectangle of an entry covers its subtree\<close>




lemma hits_append [simp]: "hits rect (xs @ ys) = hits rect xs @ hits rect ys"
  by (simp add: hits_def)

lemma hits_Nil [simp]: "hits rect [] = []"
  by (simp add: hits_def)


subsection \<open>The loop of rangeQueryHelper\<close>






subsection \<open>Counting the leaf entries level by level\<close>












subsection \<open>Facts about every built index\<close>



lemma stored_fields [simp]: "bounding_box (stored p) = fst p" "data (stored p) = Some (snd p)"
  by (simp_all add: stored_def mkEntry_def)






lemma insertRT_built:
  assumes "built ps t"
  shows "\<exists>n. \<forall>fuel\<ge>n. \<exists>t'. insertRT fuel rect d t = Some (Inr t')"
    and "insertRT fuel rect d t \<noteq> Some (Inl x)"
proof -
  from built_wellFormed[OF assms] obtain lvl where wf: "wellFormed lvl t" by blast
  show "insertRT fuel rect d t \<noteq> Some (Inl x)"
    using insertRT_sound[OF wf, of fuel rect d "Inl x"] by auto
  have "\<forall>fuel\<ge>Suc (lvl (root_index t)). \<exists>t'. insertRT fuel rect d t = Some (Inr t')"
  proof (intro allI impI)
    fix fuel assume "Suc (lvl (root_index t)) \<le> fuel"
    then have "lvl (root_index t) < fuel" by simp
    from insertRT_total[OF wf this, of rect d] obtain res where r: "insertRT fuel rect d t = Some res"
      by auto
    from insertRT_sound[OF wf r] r show "\<exists>t'. insertRT fuel rect d t = Some (Inr t')" by auto
  qed
  then show "\<exists>n. \<forall>fuel\<ge>n. \<exists>t'. insertRT fuel rect d t = Some (Inr t')" by blast
qed


subsection \<open>The references of splitNode\<close>

text \<open>A run of \<open>splitNodeRef\<close> or \<open>insertRef\<close> that returns an index returns the index that
  \<open>splitNode\<close> or \<open>insertRT\<close> returns.\<close>

lemma splitNodeRef_agrees:
  "splitNodeRef fuel cap t i = Some (Inr t') \<Longrightarrow> splitNode fuel t i = Some (Inr t')"
proof (induction fuel arbitrary: t i t')
  case 0
  then show ?case by simp
next
  case (Suc fuel)
  have "splitNodeRef (Suc fuel) cap t i = Some (Inr t') \<longrightarrow> splitNode (Suc fuel) t i = Some (Inr t')"
    using Suc.IH by (simp add: Let_def createNode_def mkNode_def nth_append list_update_append split: sum.split prod.split)
  with Suc.prems show ?case by blast
qed

lemma insertRef_agrees:
  "insertRef fuel cap rect d t = Some (Inr t') \<Longrightarrow> insertRT fuel rect d t = Some (Inr t')"
  by (auto simp add: insertRef_def insertRT_def Let_def splitNodeRef_agrees
      split: option.splits sum.splits prod.splits if_splits)

text \<open>Where \<open>splitNode\<close> returns an index, \<open>splitNodeRef\<close> returns it if the arena
  has grown within the capacity, and ends in \<open>Dangling_reference\<close> otherwise.\<close>

lemma splitNode_capacity_aux:
  "splitNode fuel t i = Some (Inr t') \<Longrightarrow>
   length (nodes t) < length (nodes t') \<and>
   splitNodeRef fuel cap t i =
     (if length (nodes t') \<le> cap then Some (Inr t') else Some (Inl Dangling_reference))"
proof (induction fuel arbitrary: t i t')
  case 0
  then show ?case by simp
next
  case (Suc fuel)
  let ?n = "length (nodes t)"
  from Suc.prems have i: "i < ?n"
    by (simp split: if_splits)
  from Suc.prems i obtain g1 g2 where g: "splitGroups (entries (nodes t ! i)) = Inr (g1, g2)"
    by (cases "splitGroups (entries (nodes t ! i))") auto
  define ns1 where "ns1 = (nodes t)[i := (nodes t ! i)\<lparr>entries := g1\<rparr>]"
  define new_node where "new_node = \<lparr>is_leaf = is_leaf (nodes t ! i), entries = g2\<rparr>"
  have n1: "length ns1 = ?n"
    by (simp add: ns1_def)
  show ?case
  proof (cases "i = root_index t")
    case True
    define ns3 where "ns3 = (ns1 @ [mkNode False]) @ [new_node]"
    define root_node where "root_node = (ns3 ! ?n)\<lparr>entries :=
       entries (ns3 ! ?n) @ [childEntry (mbr (entries (ns3 ! i))) i,
                              childEntry (mbr (entries (ns3 ! Suc ?n))) (Suc ?n)]\<rparr>"
    have a: "splitNode (Suc fuel) t i = Some (Inr \<lparr>nodes = ns3[?n := root_node], root_index = ?n\<rparr>)"
      using i g True
      by (simp add: Let_def createNode_def mkNode_def nth_append list_update_append
          ns1_def new_node_def ns3_def root_node_def)
    have b: "splitNodeRef (Suc fuel) cap t i =
        (if ?n + 2 \<le> cap then Some (Inr \<lparr>nodes = ns3[?n := root_node], root_index = ?n\<rparr>)
         else Some (Inl Dangling_reference))"
      using i g True
      by (simp add: Let_def createNode_def mkNode_def nth_append list_update_append vectorFull_def
          ns1_def new_node_def ns3_def root_node_def)
    from a Suc.prems have t': "t' = \<lparr>nodes = ns3[?n := root_node], root_index = ?n\<rparr>"
      by simp
    have "length (nodes t') = ?n + 2"
      by (simp add: t' ns3_def n1)
    with b t' show ?thesis
      by simp
  next
    case False
    from Suc.prems i g False obtain p where fp: "findParent ns1 i = Inr p"
      by (cases "findParent ns1 i") (auto simp add: Let_def ns1_def)
    define ns2 where "ns2 = ns1[p := (ns1 ! p)\<lparr>entries :=
       updateParentEntry i (mbr (entries (ns1 ! i))) (entries (ns1 ! p))\<rparr>]"
    define ns3 where "ns3 = ns2 @ [new_node]"
    define parent2 where "parent2 = (ns3 ! p)\<lparr>entries :=
       entries (ns3 ! p) @ [childEntry (mbr (entries (ns3 ! length ns2))) (length ns2)]\<rparr>"
    define t2 where "t2 = \<lparr>nodes = ns3[p := parent2], root_index = root_index t\<rparr>"
    have n2: "length (nodes t2) = ?n + 1"
      by (simp add: t2_def ns3_def ns2_def n1)
    have pl: "length (entries parent2) = Suc (length (entries (ns3 ! p)))"
      by (simp add: parent2_def)
    have a: "splitNode (Suc fuel) t i =
        (if length (entries parent2) > MAX_ENTRIES then splitNode fuel t2 p else Some (Inr t2))"
      using i g False fp
      by (simp add: Let_def pl ns1_def[symmetric] new_node_def[symmetric] ns2_def[symmetric]
          ns3_def[symmetric] parent2_def[symmetric] t2_def[symmetric])
    have b: "splitNodeRef (Suc fuel) cap t i =
        (if vectorFull cap ns2 then Some (Inl Dangling_reference)
         else if length (entries parent2) > MAX_ENTRIES then splitNodeRef fuel cap t2 p
         else Some (Inr t2))"
      using i g False fp
      by (simp add: Let_def pl ns1_def[symmetric] new_node_def[symmetric]
          ns2_def[symmetric] ns3_def[symmetric] parent2_def[symmetric] t2_def[symmetric])
    have full: "vectorFull cap ns2 \<longleftrightarrow> \<not> ?n + 1 \<le> cap"
      by (auto simp add: vectorFull_def ns2_def n1)
    show ?thesis
    proof (cases "length (entries parent2) > MAX_ENTRIES")
      case True
      with a Suc.prems have "splitNode fuel t2 p = Some (Inr t')"
        by simp
      from Suc.IH[OF this] n2 b True full show ?thesis
        by auto
    next
      case False
      with a Suc.prems have "t' = t2"
        by simp
      with n2 b False full show ?thesis
        by simp
    qed
  qed
qed

lemma splitNodeRef_capacity:
  "splitNode fuel t i = Some (Inr t') \<Longrightarrow>
   splitNodeRef fuel cap t i =
     (if length (nodes t') \<le> cap then Some (Inr t') else Some (Inl Dangling_reference))"
  by (simp add: splitNode_capacity_aux)

lemma chooseLeaf_length:
  "chooseLeaf fuel ns i rect = Some (Inr (l, ns')) \<Longrightarrow> length ns' = length ns"
  using chooseLeaf_grown grown_length by blast

lemma insertRef_capacity:
  assumes "insertRT fuel rect d t = Some (Inr t')"
  shows "insertRef fuel cap rect d t =
     (if length (nodes t') = length (nodes t) \<or> length (nodes t') \<le> cap then Some (Inr t')
      else Some (Inl Dangling_reference))"
proof -
  from assms obtain l ns where cl: "chooseLeaf fuel (nodes t) (root_index t) rect = Some (Inr (l, ns))"
    by (auto simp add: insertRT_def split: option.splits sum.splits)
  have len: "length ns = length (nodes t)"
    by (rule chooseLeaf_length[OF cl])
  define leaf' where "leaf' = (ns ! l)\<lparr>entries := entries (ns ! l) @ [mkEntry rect (Some d)]\<rparr>"
  define t1 where "t1 = \<lparr>nodes = ns[l := leaf'], root_index = root_index t\<rparr>"
  have n1: "length (nodes t1) = length (nodes t)"
    by (simp add: t1_def len)
  have a: "insertRT fuel rect d t =
      (if length (entries leaf') > MAX_ENTRIES then splitNode fuel t1 l else Some (Inr t1))"
    by (simp add: insertRT_def cl Let_def leaf'_def t1_def)
  have b: "insertRef fuel cap rect d t =
      (if length (entries leaf') > MAX_ENTRIES then splitNodeRef fuel cap t1 l else Some (Inr t1))"
    by (simp add: insertRef_def cl Let_def leaf'_def t1_def)
  show ?thesis
  proof (cases "length (entries leaf') > MAX_ENTRIES")
    case True
    with a assms have s: "splitNode fuel t1 l = Some (Inr t')"
      by simp
    from splitNode_capacity_aux[OF s, of cap] n1 b True show ?thesis
      by auto
  next
    case False
    with a assms have "t' = t1"
      by simp
    with b False n1 show ?thesis
      by simp
  qed
qed

lemma insertRef_within_capacity:
  assumes "insertRef fuel cap rect d t = Some (Inr t')"
  shows "length (nodes t') = length (nodes t) \<or> length (nodes t') \<le> cap"
proof -
  have a: "insertRT fuel rect d t = Some (Inr t')"
    by (rule insertRef_agrees[OF assms])
  from insertRef_capacity[OF a, of cap] assms show ?thesis
    by (simp split: if_splits)
qed

lemma insertRef_built:
  assumes "built ps t"
  shows "\<exists>n. \<forall>fuel\<ge>n. \<exists>t'. insertRT fuel rect d t = Some (Inr t') \<and>
     insertRef fuel cap rect d t =
       (if length (nodes t') = length (nodes t) \<or> length (nodes t') \<le> cap then Some (Inr t')
        else Some (Inl Dangling_reference))"
proof -
  from insertRT_built(1)[OF assms, of rect d] obtain n where
    n: "\<forall>fuel\<ge>n. \<exists>t'. insertRT fuel rect d t = Some (Inr t')"
    by blast
  show ?thesis
  proof (intro exI[of _ n] allI impI)
    fix fuel assume "n \<le> fuel"
    with n obtain t' where a: "insertRT fuel rect d t = Some (Inr t')"
      by blast
    from a insertRef_capacity[OF a, of cap] show "\<exists>t'. insertRT fuel rect d t = Some (Inr t') \<and>
     insertRef fuel cap rect d t =
       (if length (nodes t') = length (nodes t) \<or> length (nodes t') \<le> cap then Some (Inr t')
        else Some (Inl Dangling_reference))"
      by blast
  qed
qed

section \<open>The claims about every index built by insertions\<close>











text \<open>
  With arena positions in place of the references, \<open>insert\<close> returns on every index built
  by insertions, for every rectangle and value and with enough fuel for its nested calls, and
  with no fuel does it end in an error: \<open>findParent\<close> always finds the parent of a split node
  that is not the root, and no unchecked read is out of range.
\<close>

lemma insertRT_never_fails:
  "built ps t \<Longrightarrow>
   (\<exists>n. \<forall>fuel\<ge>n. \<exists>t'. insertRT fuel rect d t = Some (Inr t'))
   \<and> (\<forall>fuel x. insertRT fuel rect d t \<noteq> Some (Inl x))"
proof -
  assume b: "built ps t"
  have "\<forall>fuel x. insertRT fuel rect d t \<noteq> Some (Inl x)"
    using insertRT_built(2)[OF b] by blast
  with insertRT_built(1)[OF b, of rect d] show ?thesis by (rule conjI)
qed

text \<open>
  C8. \<open>insert\<close> does not return normally for every rectangle and value. The four insertions
  of \<open>runTests\<close> return, with references as with positions. A fifth insertion overflows the
  root leaf and calls \<open>splitNode\<close>, which appends two nodes to \<open>nodes\<close>; where the vector
  holding the one node has capacity 1 or 2, it reallocates, and line 171 reads through \<open>node\<close>,
  taken at line 114: the call ends in \<open>Dangling_reference\<close>, whatever the fuel. With a
  capacity of 3, and with positions in place of references, the same call returns.
\<close>

theorem fifth_insert_dangling_reference:
  "(\<forall>fuel. insertAllRef (Suc fuel) 1 (runTestsInserts @ [(Rect 21 21 25 25, 5)]) newRTree
            = Some (Inl Dangling_reference))
   \<and> (\<forall>fuel. insertAllRef (Suc fuel) 2 (runTestsInserts @ [(Rect 21 21 25 25, 5)]) newRTree
            = Some (Inl Dangling_reference))
   \<and> insertAllRef 1 1 runTestsInserts newRTree = insertAll 1 runTestsInserts newRTree
   \<and> (\<exists>t. insertAll 1 runTestsInserts newRTree = Some (Inr t))
   \<and> (\<exists>t. insertAll 1 (runTestsInserts @ [(Rect 21 21 25 25, 5)]) newRTree = Some (Inr t))
   \<and> (\<exists>t. insertAllRef 1 3 (runTestsInserts @ [(Rect 21 21 25 25, 5)]) newRTree = Some (Inr t))"
  by (simp add: runTestsInserts_def model_defs insertRef_def vectorFull_def)





end
